theory Spec2Isabelle
  imports Main
begin

section \<open>The job table of tsh\<close>

text \<open>
  The shell keeps one global array \<^verbatim>\<open>struct job_t jobs[MAXJOBS]\<close>. It is modelled as a
  list of records; every loop \<^verbatim>\<open>for (i = 0; i < MAXJOBS; i++)\<close> over the array is a
  traversal of the list, and a pointer \<^verbatim>\<open>struct job_t *\<close> into the array is the index
  of the slot it points to (\<open>None\<close> for \<^verbatim>\<open>NULL\<close>). The C type \<^verbatim>\<open>int\<close> of the
  fields \<^verbatim>\<open>pid\<close> and \<^verbatim>\<open>jid\<close> is modelled by \<open>int\<close>: the program does no
  arithmetic on them apart from the unary minus in \<^verbatim>\<open>kill(-pid, sig)\<close>.
\<close>

definition MAXJOBS :: nat where
  "MAXJOBS = 16"

text \<open>The job states \<^verbatim>\<open>UNDEF 0\<close>, \<^verbatim>\<open>FG 1\<close>, \<^verbatim>\<open>BG 2\<close>, \<^verbatim>\<open>ST 3\<close>; the program
  never stores any other value in the field.\<close>

datatype jstate = UNDEF | FG | BG | ST

text \<open>What a C run does where the model cannot go on: a read through a \<^verbatim>\<open>NULL\<close>
  pointer, a write outside a local array, or a read through a pointer taken from memory
  that was never written.\<close>

datatype fault = NullDeref | OutOfBounds | WildRead

record job_t =
  pid :: int
  jid :: int
  state :: jstate
  cmdline :: string

definition clearjob :: "job_t \<Rightarrow> job_t" where
  "clearjob job = job\<lparr>pid := 0, jid := 0, state := UNDEF, cmdline := []\<rparr>"

definition initjobs :: "job_t list \<Rightarrow> job_t list" where
  "initjobs js = map clearjob js"

text \<open>The search loop shared by the lookups: the index of the first slot that satisfies
  the test, scanning from slot 0.\<close>

fun first_idx :: "('a \<Rightarrow> bool) \<Rightarrow> 'a list \<Rightarrow> nat option" where
  "first_idx P [] = None"
| "first_idx P (x # xs) = (if P x then Some 0 else map_option Suc (first_idx P xs))"

text \<open>\<^verbatim>\<open>freejid\<close>: the first loop marks \<^verbatim>\<open>taken[jobs[i].jid]\<close> for every slot whose
  jid is not 0; \<^verbatim>\<open>taken\<close> has \<^verbatim>\<open>MAXJOBS + 1\<close> cells, and a jid outside it is a write
  outside the array. The second loop returns the first \<open>i\<close> in \<open>1..MAXJOBS\<close> that is
  not marked, and 0 when all are.\<close>

fun mark_taken :: "job_t list \<Rightarrow> bool list \<Rightarrow> fault + bool list" where
  "mark_taken [] taken = Inr taken"
| "mark_taken (j # js) taken =
     (if jid j \<noteq> 0 then
        (if 0 \<le> jid j \<and> nat (jid j) < length taken
         then mark_taken js (taken[nat (jid j) := True])
         else Inl OutOfBounds)
      else mark_taken js taken)"

function scan_free :: "bool list \<Rightarrow> nat \<Rightarrow> int" where
  "scan_free taken i =
     (if i \<le> MAXJOBS then (if \<not> taken ! i then int i else scan_free taken (Suc i)) else 0)"
  by pat_completeness auto
termination
  by (relation "measure (\<lambda>(taken, i). Suc MAXJOBS - i)") auto

declare scan_free.simps [simp del]

definition freejid :: "job_t list \<Rightarrow> fault + int" where
  "freejid js =
     (case mark_taken js (replicate (MAXJOBS + 1) False) of
        Inl f \<Rightarrow> Inl f
      | Inr taken \<Rightarrow> Inr (scan_free taken 1))"

definition fgpid :: "job_t list \<Rightarrow> int" where
  "fgpid js = (case first_idx (\<lambda>j. state j = FG) js of Some i \<Rightarrow> pid (js ! i) | None \<Rightarrow> 0)"

definition getjobpid :: "job_t list \<Rightarrow> int \<Rightarrow> nat option" where
  "getjobpid js p = (if p < 1 then None else first_idx (\<lambda>j. pid j = p) js)"

definition getjobjid :: "job_t list \<Rightarrow> int \<Rightarrow> nat option" where
  "getjobjid js i = (if i < 1 then None else first_idx (\<lambda>j. jid j = i) js)"

definition pid2jid :: "job_t list \<Rightarrow> int \<Rightarrow> int" where
  "pid2jid js p =
     (if p < 1 then 0
      else case first_idx (\<lambda>j. pid j = p) js of Some i \<Rightarrow> jid (js ! i) | None \<Rightarrow> 0)"

definition deletejob :: "job_t list \<Rightarrow> int \<Rightarrow> int \<times> job_t list" where
  "deletejob js p =
     (if p < 1 then (0, js)
      else case first_idx (\<lambda>j. pid j = p) js of
        Some i \<Rightarrow> (1, js[i := clearjob (js ! i)])
      | None \<Rightarrow> (0, js))"

section \<open>Decimal output\<close>

text \<open>\<^verbatim>\<open>%d\<close> of \<^verbatim>\<open>printf\<close> and \<^verbatim>\<open>snprintf\<close>.\<close>

fun digits :: "nat \<Rightarrow> string" where
  "digits n =
     (if n < 10 then [''0123456789'' ! n]
      else digits (n div 10) @ [''0123456789'' ! (n mod 10)])"

declare digits.simps [simp del]

definition show_int :: "int \<Rightarrow> string" where
  "show_int i = (if i < 0 then CHR ''-'' # digits (nat (- i)) else digits (nat i))"

section \<open>Child status changes and signals\<close>

datatype signal = SIGCHLD | SIGINT | SIGTSTP | SIGCONT | SIGQUIT | SIGUSR1

text \<open>The status \<^verbatim>\<open>waitpid\<close> fills in: \<^verbatim>\<open>WIFSTOPPED\<close> with \<^verbatim>\<open>WSTOPSIG\<close>,
  \<^verbatim>\<open>WIFSIGNALED\<close> with \<^verbatim>\<open>WTERMSIG\<close>, \<^verbatim>\<open>WIFEXITED\<close> with the exit status.
  (\<^verbatim>\<open>waitpid\<close> is called without \<^verbatim>\<open>WCONTINUED\<close>, so there is no fourth kind.)\<close>

datatype wstatus = WStopped int | WSignaled int | WExited int

text \<open>One child status change that is ready when the handler runs: what
  \<^verbatim>\<open>waitpid(-1, &status, WNOHANG | WUNTRACED)\<close> returns for it, and whether the
  \<^verbatim>\<open>write\<close> of its notice succeeds. The list of these is the environment's answer to
  the handler's successive \<^verbatim>\<open>waitpid\<close> calls; when it is used up \<^verbatim>\<open>waitpid\<close>
  returns 0 or -1 at once, since \<^verbatim>\<open>WNOHANG\<close> never waits.\<close>

record reaped =
  rpid :: int
  rstatus :: wstatus
  wr_ok :: bool

text \<open>A signal that reaches the shell, with what its handler will find: for
  \<^verbatim>\<open>SIGCHLD\<close> the status changes that are ready.\<close>

datatype sig_event = Chld "reaped list" | Intr | Tstp | Quit | Usr1

fun sig_of :: "sig_event \<Rightarrow> signal" where
  "sig_of (Chld rs) = SIGCHLD"
| "sig_of Intr = SIGINT"
| "sig_of Tstp = SIGTSTP"
| "sig_of Quit = SIGQUIT"
| "sig_of Usr1 = SIGUSR1"

section \<open>The shell's state and what it does to the outside\<close>

text \<open>The calls whose effect lies outside the job table are logged in call order.
  \<open>Printf\<close> is buffered output on \<^verbatim>\<open>stdout\<close>, \<open>Write\<close> the system call
  \<^verbatim>\<open>write(STDOUT_FILENO, ...)\<close>, \<open>Stderr\<close> output on \<^verbatim>\<open>stderr\<close>. \<open>Fork p\<close>
  records that \<^verbatim>\<open>fork\<close> returned \<open>p\<close> in this process, \<open>Sigsuspend m\<close> a call of
  \<^verbatim>\<open>sigsuspend\<close> with mask \<open>m\<close>.\<close>

datatype effect =
    Printf string
  | Write string
  | Stderr string
  | Kill int signal
  | Fork int
  | Setpgid int int
  | Pipe bool
  | Close int
  | Execvp "string list"
  | Perror string
  | Sigsuspend "signal set"

text \<open>Besides the globals \<^verbatim>\<open>jobs\<close>, \<^verbatim>\<open>verbose\<close> and \<^verbatim>\<open>ready\<close> the state holds what
  the kernel keeps for the process: the set of blocked signals and the signals that have
  arrived while they were blocked and wait for delivery.\<close>

record shell =
  jobs :: "job_t list"
  verbose :: bool
  sigmask :: "signal set"
  pending :: "sig_event list"
  ready :: bool
  trace :: "effect list"

definition emit :: "effect \<Rightarrow> shell \<Rightarrow> shell" where
  "emit e s = s\<lparr>trace := trace s @ [e]\<rparr>"

text \<open>How a run of a piece of the shell ends: it returns to its caller, the process
  exits with a status, the run reads through a bad pointer or writes outside an array, it
  stays suspended in \<^verbatim>\<open>sigsuspend\<close> because no further signal is delivered, or (in a
  forked child) the program image is replaced by \<^verbatim>\<open>execvp\<close>.\<close>

datatype outcome =
    Returned shell
  | Exited int shell
  | Faulted fault shell
  | Blocked shell
  | Execed shell

fun state_of :: "outcome \<Rightarrow> shell" where
  "state_of (Returned s) = s"
| "state_of (Exited c s) = s"
| "state_of (Faulted f s) = s"
| "state_of (Blocked s) = s"
| "state_of (Execed s) = s"

text \<open>Sequencing: the second piece runs only when the first returned.\<close>

definition andthen :: "outcome \<Rightarrow> (shell \<Rightarrow> outcome) \<Rightarrow> outcome" where
  "andthen out f = (case out of Returned s \<Rightarrow> f s | _ \<Rightarrow> out)"

text \<open>\<^verbatim>\<open>addjob\<close> when nothing interrupts it: the result is the C return value with the
  new state.\<close>

definition addjob :: "shell \<Rightarrow> int \<Rightarrow> jstate \<Rightarrow> string \<Rightarrow> fault + (int \<times> shell)" where
  "addjob s p st cmd =
     (if p < 1 then Inr (0, s)
      else case freejid (jobs s) of
        Inl f \<Rightarrow> Inl f
      | Inr free \<Rightarrow>
          if free = 0 then Inr (0, emit (Printf ''Tried to create too many jobs\<newline>'') s)
          else (case first_idx (\<lambda>j. pid j = 0) (jobs s) of
            None \<Rightarrow> Inr (0, s)
          | Some i \<Rightarrow>
              let s' = s\<lparr>jobs := (jobs s)[i := (jobs s ! i)\<lparr>pid := p, state := st, jid := free, cmdline := cmd\<rparr>]\<rparr>
              in Inr (1, if verbose s
                         then emit (Printf (''Added job ['' @ show_int free @ ''] '' @ show_int p
                                            @ '' '' @ cmd @ ''\<newline>'')) s'
                         else s')))"

section \<open>The signal handlers\<close>

definition set_state :: "nat \<Rightarrow> jstate \<Rightarrow> shell \<Rightarrow> shell" where
  "set_state i st s = s\<lparr>jobs := (jobs s)[i := (jobs s ! i)\<lparr>state := st\<rparr>]\<rparr>"

definition stop_notice :: "job_t \<Rightarrow> int \<Rightarrow> string" where
  "stop_notice j sg =
     ''Job ['' @ show_int (jid j) @ ''] ('' @ show_int (pid j) @ '') stopped by signal ''
       @ show_int sg @ ''\<newline>''"

definition term_notice :: "job_t \<Rightarrow> int \<Rightarrow> string" where
  "term_notice j sg =
     ''Job ['' @ show_int (jid j) @ ''] ('' @ show_int (pid j) @ '') terminated by signal ''
       @ show_int sg @ ''\<newline>''"

text \<open>\<^verbatim>\<open>sigchld_handler\<close>. The loop runs while \<^verbatim>\<open>waitpid\<close> returns a pid \<open>> 0\<close>.
  In the stopped branch the state is written only under \<^verbatim>\<open>job != NULL\<close>, but
  \<^verbatim>\<open>job->jid\<close> and \<^verbatim>\<open>job->pid\<close> are read for the notice in any case; the
  terminated branch reads them with no test at all. The notice is at most 65 characters
  for 32-bit integers, so \<^verbatim>\<open>snprintf\<close> never truncates it and \<^verbatim>\<open>len > 0\<close> holds.\<close>

fun sigchld_handler :: "reaped list \<Rightarrow> shell \<Rightarrow> outcome" where
  "sigchld_handler [] s = Returned s"
| "sigchld_handler (r # rs) s =
     (if rpid r \<le> 0 then Returned s
      else
        (case rstatus r of
           WStopped sg \<Rightarrow>
             (case getjobpid (jobs s) (rpid r) of
                None \<Rightarrow> Faulted NullDeref s
              | Some i \<Rightarrow>
                  let s1 = set_state i ST s in
                  if wr_ok r
                  then sigchld_handler rs (emit (Write (stop_notice (jobs s1 ! i) sg)) s1)
                  else Exited 1 s1)
         | WSignaled sg \<Rightarrow>
             (case getjobpid (jobs s) (rpid r) of
                None \<Rightarrow> Faulted NullDeref s
              | Some i \<Rightarrow>
                  if wr_ok r
                  then sigchld_handler rs
                         ((emit (Write (term_notice (jobs s ! i) sg)) s)
                            \<lparr>jobs := snd (deletejob (jobs s) (rpid r))\<rparr>)
                  else Exited 1 s)
         | WExited c \<Rightarrow>
             sigchld_handler rs (s\<lparr>jobs := snd (deletejob (jobs s) (rpid r))\<rparr>)))"

definition sigint_handler :: "shell \<Rightarrow> outcome" where
  "sigint_handler s =
     (let p = fgpid (jobs s) in
      if p \<noteq> 0 then Returned (emit (Kill (- p) SIGINT) s) else Returned s)"

definition sigtstp_handler :: "shell \<Rightarrow> outcome" where
  "sigtstp_handler s =
     (let p = fgpid (jobs s);
          job = getjobpid (jobs s) p;
          s1 = (if p \<noteq> 0 then emit (Kill (- p) SIGTSTP) s else s)
      in case job of
           None \<Rightarrow> Exited 1 s1
         | Some i \<Rightarrow> Returned (set_state i ST s1))"

definition sigusr1_handler :: "shell \<Rightarrow> outcome" where
  "sigusr1_handler s = Returned (s\<lparr>ready := True\<rparr>)"

definition sigquit_handler :: "shell \<Rightarrow> outcome" where
  "sigquit_handler s =
     Exited 1 (emit (Printf ''Terminating after receipt of SIGQUIT signal\<newline>'') s)"

text \<open>\<open>deliver\<close> runs the handler that \<^verbatim>\<open>main\<close> installed for the signal. A handler
  runs to its end before the interrupted code goes on, and the model lets no second
  handler interrupt it.\<close>

fun deliver :: "sig_event \<Rightarrow> shell \<Rightarrow> outcome" where
  "deliver (Chld rs) s = sigchld_handler rs s"
| "deliver Intr s = sigint_handler s"
| "deliver Tstp s = sigtstp_handler s"
| "deliver Quit s = sigquit_handler s"
| "deliver Usr1 s = sigusr1_handler s"

section \<open>Signals that arrive while the main program runs\<close>

text \<open>A signal that arrives while it is blocked is kept pending. The kernel keeps one
  pending instance per signal number: a second \<^verbatim>\<open>SIGCHLD\<close> joins the first, and the
  handler, once it runs, finds the status changes of both.\<close>

fun hold :: "sig_event \<Rightarrow> sig_event list \<Rightarrow> sig_event list" where
  "hold e [] = [e]"
| "hold e (d # ds) =
     (if sig_of d = sig_of e
      then (case (d, e) of (Chld a, Chld b) \<Rightarrow> Chld (a @ b) | _ \<Rightarrow> d) # ds
      else d # hold e ds)"

text \<open>\<open>arrive es s\<close>: the signals \<open>es\<close> arrive, one after the other, at a point where
  the main program can be interrupted. One that is not blocked is handled at once; one
  that is blocked becomes pending.\<close>

fun arrive :: "sig_event list \<Rightarrow> shell \<Rightarrow> outcome" where
  "arrive [] s = Returned s"
| "arrive (e # es) s =
     (if sig_of e \<in> sigmask s then arrive es (s\<lparr>pending := hold e (pending s)\<rparr>)
      else andthen (deliver e s) (\<lambda>s'. arrive es s'))"

text \<open>\<^verbatim>\<open>sigprocmask(SIG_SETMASK, &m, NULL)\<close>: the pending signals that \<open>m\<close> does not
  block are handled before the call returns.\<close>

definition setmask :: "signal set \<Rightarrow> shell \<Rightarrow> outcome" where
  "setmask m s = arrive (pending s) (s\<lparr>sigmask := m, pending := []\<rparr>)"

text \<open>The environment tells the model which signals arrive at which point of the main
  program, as a list of batches: the \<open>k\<close>-th batch arrives at the \<open>k\<close>-th point, and
  past the end of the list nothing arrives.\<close>

definition batch :: "sig_event list list \<Rightarrow> nat \<Rightarrow> sig_event list" where
  "batch bs k = (if k < length bs then bs ! k else [])"

text \<open>A run of statements none of which can fail, with one point before each.\<close>

fun stmts :: "(shell \<Rightarrow> shell) list \<Rightarrow> sig_event list list \<Rightarrow> shell \<Rightarrow> outcome" where
  "stmts [] bs s = Returned s"
| "stmts (f # fs) bs s = andthen (arrive (batch bs 0) s) (\<lambda>s1. stmts fs (drop 1 bs) (f s1))"

text \<open>\<^verbatim>\<open>addjob\<close> as the main program runs it, with the points at which a handler can
  run in between: before \<^verbatim>\<open>freejid\<close>, before the search for a free slot, and before each
  of the stores into the slot after the first (a handler never touches a slot whose pid is
  0, so none is put between the test that finds the slot and the store of the pid). The
  callers do not look at the return value, so it is left out.\<close>

definition put :: "nat \<Rightarrow> (job_t \<Rightarrow> job_t) \<Rightarrow> shell \<Rightarrow> shell" where
  "put i f s = s\<lparr>jobs := (jobs s)[i := f (jobs s ! i)]\<rparr>"

definition addjob_steps :: "sig_event list list \<Rightarrow> shell \<Rightarrow> int \<Rightarrow> jstate \<Rightarrow> string \<Rightarrow> outcome" where
  "addjob_steps bs s p st cmd =
     (if p < 1 then Returned s
      else
        andthen (arrive (batch bs 0) s) (\<lambda>s0.
          case freejid (jobs s0) of
            Inl f \<Rightarrow> Faulted f s0
          | Inr free \<Rightarrow>
              if free = 0 then Returned (emit (Printf ''Tried to create too many jobs\<newline>'') s0)
              else
                andthen (arrive (batch bs 1) s0) (\<lambda>s1.
                  case first_idx (\<lambda>j. pid j = 0) (jobs s1) of
                    None \<Rightarrow> Returned s1
                  | Some i \<Rightarrow>
                      andthen
                        (stmts [put i (\<lambda>j. j\<lparr>state := st\<rparr>),
                                put i (\<lambda>j. j\<lparr>jid := free\<rparr>),
                                put i (\<lambda>j. j\<lparr>cmdline := cmd\<rparr>)]
                           (drop 2 bs) (put i (\<lambda>j. j\<lparr>pid := p\<rparr>) s1))
                        (\<lambda>s5.
                           if verbose s5 then
                             andthen (arrive (batch bs 5) s5) (\<lambda>s6.
                               Returned (emit (Printf (''Added job ['' @ show_int (jid (jobs s6 ! i))
                                                  @ ''] '' @ show_int (pid (jobs s6 ! i)) @ '' ''
                                                  @ cmdline (jobs s6 ! i) @ ''\<newline>'')) s6))
                           else Returned s5))))"

section \<open>Waiting for the foreground job\<close>

text \<open>The sleep inside \<^verbatim>\<open>sigsuspend\<close>, with the signals that arrive from then on: a
  blocked one becomes pending and the sleep goes on, the first one that is not blocked is
  handled and ends the sleep; what has not arrived by then is handed back. When nothing
  more arrives the shell stays suspended.\<close>

fun sleep :: "sig_event list \<Rightarrow> shell \<Rightarrow> outcome \<times> sig_event list" where
  "sleep [] s = (Blocked s, [])"
| "sleep (e # es) s =
     (if sig_of e \<in> sigmask s then sleep es (s\<lparr>pending := hold e (pending s)\<rparr>)
      else (deliver e s, es))"

text \<open>\<^verbatim>\<open>sigsuspend(&m)\<close> as one system call: it installs \<open>m\<close>; pending signals that
  \<open>m\<close> does not block are handled at once, otherwise the process sleeps until a signal
  has been handled; then the old mask is put back and the call returns. \<open>late\<close> are the
  signals that arrive from the start of the sleep up to the next statement of the caller:
  those after the one that ended the sleep meet the old mask again.\<close>

definition sigsuspend :: "signal set \<Rightarrow> sig_event list \<Rightarrow> shell \<Rightarrow> outcome" where
  "sigsuspend m late s =
     (let old = sigmask s;
          s1 = (emit (Sigsuspend m) s)\<lparr>sigmask := m\<rparr>
      in if list_ex (\<lambda>e. sig_of e \<notin> m) (pending s)
         then andthen (arrive (pending s1) (s1\<lparr>pending := []\<rparr>))
                (\<lambda>s2. arrive late (s2\<lparr>sigmask := old\<rparr>))
         else (case sleep late s1 of
                 (Returned s2, rest) \<Rightarrow> arrive rest (s2\<lparr>sigmask := old\<rparr>)
               | (out, rest) \<Rightarrow> out))"

text \<open>One turn of the loop of \<^verbatim>\<open>waitfg\<close> after the test \<^verbatim>\<open>fgpid(jobs) == pid\<close> has
  succeeded: the signals \<open>early\<close> arrive before \<^verbatim>\<open>sigsuspend\<close> has taken effect, then
  \<^verbatim>\<open>sigsuspend(&prev_mask)\<close> runs.\<close>

definition wait_turn :: "signal set \<Rightarrow> sig_event list \<Rightarrow> sig_event list \<Rightarrow> shell \<Rightarrow> outcome" where
  "wait_turn prev early late s = andthen (arrive early s) (sigsuspend prev late)"

text \<open>The loop \<^verbatim>\<open>while (fgpid(jobs) == pid) sigsuspend(&prev_mask)\<close>. Each turn uses two
  batches of the environment's list, \<open>early\<close> and \<open>late\<close>. When the list is used up
  no signal arrives any more; then a \<^verbatim>\<open>sigsuspend\<close> can still return once, for
  signals that were pending, and the next one never returns.\<close>

fun waitfg_loop :: "int \<Rightarrow> signal set \<Rightarrow> sig_event list list \<Rightarrow> shell \<Rightarrow> outcome" where
  "waitfg_loop p prev [] s =
     (if fgpid (jobs s) = p then
        andthen (sigsuspend prev [] s)
          (\<lambda>s1. if fgpid (jobs s1) = p then sigsuspend prev [] s1 else Returned s1)
      else Returned s)"
| "waitfg_loop p prev (early # bs) s =
     (if fgpid (jobs s) = p then
        andthen (wait_turn prev early (batch bs 0) s) (\<lambda>s1. waitfg_loop p prev (drop 1 bs) s1)
      else Returned s)"

text \<open>\<^verbatim>\<open>waitfg\<close>: block \<^verbatim>\<open>SIGCHLD\<close>, run the loop, restore \<^verbatim>\<open>prev_mask\<close>. The first
  batch of \<open>evs\<close> arrives before \<^verbatim>\<open>SIGCHLD\<close> is blocked, the others during the loop.\<close>

definition waitfg :: "int \<Rightarrow> sig_event list list \<Rightarrow> shell \<Rightarrow> outcome" where
  "waitfg p evs s =
     andthen (arrive (batch evs 0) s) (\<lambda>s0.
       let prev_mask = sigmask s0;
           s1 = s0\<lparr>sigmask := sigmask s0 \<union> {SIGCHLD}\<rparr>
       in andthen (waitfg_loop p prev_mask (drop 1 evs) s1) (setmask prev_mask))"

section \<open>The built-in commands\<close>

text \<open>\<^verbatim>\<open>atoi\<close> of the C library: leading white space, an optional sign, then decimal
  digits up to the first other character. The value is the mathematical one (C leaves a
  value that does not fit \<^verbatim>\<open>int\<close> undefined).\<close>

definition isspace_c :: "char \<Rightarrow> bool" where
  "isspace_c c \<longleftrightarrow> c \<in> set [CHR '' '', CHR 0x09, CHR 0x0A, CHR 0x0B, CHR 0x0C, CHR 0x0D]"

fun atoi_digits :: "string \<Rightarrow> int \<Rightarrow> int" where
  "atoi_digits [] acc = acc"
| "atoi_digits (c # cs) acc =
     (if (48::nat) \<le> of_char c \<and> of_char c \<le> (57::nat)
      then atoi_digits cs (10 * acc + (int (of_char c) - 48))
      else acc)"

definition atoi :: "string \<Rightarrow> int" where
  "atoi str =
     (case dropWhile isspace_c str of
        [] \<Rightarrow> 0
      | c # cs \<Rightarrow>
          if c = CHR ''-'' then - atoi_digits cs 0
          else if c = CHR ''+'' then atoi_digits cs 0
          else atoi_digits (c # cs) 0)"

text \<open>The last statement of \<^verbatim>\<open>do_bgfg\<close>, on the slot \<^verbatim>\<open>cur_job\<close> points to.
  \<^verbatim>\<open>do_bgfg\<close> blocks no signal, so a handler can run before each statement of the branch
  that is taken; every statement reads the fields of the slot anew. The batches of
  \<open>evs\<close> left over by the statements belong to \<^verbatim>\<open>waitfg\<close>.\<close>

definition bgfg_job :: "string \<Rightarrow> nat \<Rightarrow> sig_event list list \<Rightarrow> shell \<Rightarrow> outcome" where
  "bgfg_job cmd i evs s =
     (let job = jobs s ! i in
      if cmd = ''bg'' \<and> state job = ST then
        stmts [\<lambda>s. emit (Kill (- pid (jobs s ! i)) SIGCONT) s,
               set_state i BG,
               \<lambda>s. emit (Printf (''['' @ show_int (jid (jobs s ! i)) @ ''] (''
                                   @ show_int (pid (jobs s ! i)) @ '') '' @ cmdline (jobs s ! i))) s]
          evs s
      else if cmd = ''fg'' \<and> (state job = ST \<or> state job = BG) then
        andthen (stmts [\<lambda>s. emit (Kill (- pid (jobs s ! i)) SIGCONT) s, set_state i FG] evs s)
          (\<lambda>s2. waitfg (pid (jobs s2 ! i)) (drop 2 evs) s2)
      else Returned s)"

text \<open>\<^verbatim>\<open>do_bgfg\<close>. Signals that arrive while the argument is resolved are taken as
  handled before the call.\<close>

fun do_bgfg :: "string list \<Rightarrow> sig_event list list \<Rightarrow> shell \<Rightarrow> outcome" where
  "do_bgfg [] evs s = Faulted NullDeref s"
| "do_bgfg [cmd] evs s =
     Returned (emit (Printf (cmd @ '' command requires PID or %jid argument\<newline>'')) s)"
| "do_bgfg (cmd # ident # rest) evs s =
     (if take 1 ident = ''%'' then
        (let j = atoi (drop 1 ident) in
         if j = 0 then
           Returned (emit (Printf (cmd @ '': argument must be a PID or %jid\<newline>'')) s)
         else
           (case getjobjid (jobs s) j of
              None \<Rightarrow> Returned (emit (Printf (''%'' @ show_int j @ '': No such job\<newline>'')) s)
            | Some i \<Rightarrow> bgfg_job cmd i evs s))
      else
        (let p = atoi ident in
         if p = 0 then
           Returned (emit (Printf (cmd @ '': argument must be a PID or %jid\<newline>'')) s)
         else
           (case getjobpid (jobs s) p of
              None \<Rightarrow> Returned (emit (Printf (''('' @ show_int p @ ''): No such process\<newline>'')) s)
            | Some i \<Rightarrow> bgfg_job cmd i evs s)))"

definition listjobs_entry :: "nat \<Rightarrow> job_t \<Rightarrow> effect list" where
  "listjobs_entry i j =
     (if pid j \<noteq> 0 then
        [Printf (''['' @ show_int (jid j) @ ''] ('' @ show_int (pid j) @ '') ''),
         Printf (case state j of
                   BG \<Rightarrow> ''Running ''
                 | FG \<Rightarrow> ''Foreground ''
                 | ST \<Rightarrow> ''Stopped ''
                 | UNDEF \<Rightarrow> ''listjobs: Internal error: job['' @ show_int (int i) @ ''].state=0 ''),
         Printf (cmdline j)]
      else [])"

definition listjobs :: "shell \<Rightarrow> shell" where
  "listjobs s =
     s\<lparr>trace := trace s @ concat (map (\<lambda>i. listjobs_entry i (jobs s ! i)) [0..<length (jobs s)])\<rparr>"

text \<open>\<^verbatim>\<open>builtin_cmd\<close>: the outcome and, when it returns, the C return value.\<close>

definition builtin_cmd :: "string list \<Rightarrow> sig_event list list \<Rightarrow> shell \<Rightarrow> outcome \<times> int" where
  "builtin_cmd argv evs s =
     (case argv of
        [] \<Rightarrow> (Faulted NullDeref s, 1)
      | a # as \<Rightarrow>
          if a = ''quit'' then (Exited 0 s, 0)
          else if a = ''jobs'' then (Returned (listjobs s), 0)
          else if a = ''bg'' \<or> a = ''fg'' then (do_bgfg argv evs s, 0)
          else (Returned s, 1))"

section \<open>Launching commands\<close>

text \<open>What the environment answers while one command line is evaluated: the return
  value of the \<open>j\<close>-th \<^verbatim>\<open>fork\<close> (negative for failure, 0 in the child, the child's
  pid in the parent) and of the \<open>j\<close>-th \<^verbatim>\<open>pipe\<close> (the read and the write end, or
  \<open>None\<close> for failure); in a forked child, whether \<^verbatim>\<open>execvp\<close> replaces the image;
  the signals that arrive while the parent launches the \<open>j\<close>-th child (\<open>during\<close>, one
  batch per point) and while it waits for it in \<^verbatim>\<open>waitfg\<close> (\<open>wake\<close>, or while a
  built-in runs). A single command uses index 0; a pipeline uses the stage number.

  \<^verbatim>\<open>my_pipe\<close> never writes the cell after a stage's last word in its local array
  \<^verbatim>\<open>new_argv\<close>, so what \<^verbatim>\<open>setup_redirection\<close> and \<^verbatim>\<open>execvp\<close> find there is whatever
  the stack held: \<open>junk w j\<close> are the words the cells after the last word of stage \<open>j\<close>
  point to, up to the first cell that holds \<^verbatim>\<open>NULL\<close>, and \<open>None\<close> when one of them
  holds no readable address.\<close>

record world =
  fork_ret :: "nat \<Rightarrow> int"
  pipe_ret :: "nat \<Rightarrow> (int \<times> int) option"
  exec_ok :: bool
  junk :: "nat \<Rightarrow> string list option"
  during :: "nat \<Rightarrow> sig_event list list"
  wake :: "nat \<Rightarrow> sig_event list list"

text \<open>The parent's registration of a forked child, the same text in \<^verbatim>\<open>eval\<close> (lines
  243--253) and in the loop of \<^verbatim>\<open>my_pipe\<close> (lines 364--376): the value of
  \<^verbatim>\<open>addjob\<close> is not looked at. For a background job the announcement reads
  \<^verbatim>\<open>job->cmdline\<close> of the lookup's result without a test. The batches 0 to 5 of
  \<open>bs\<close> belong to \<^verbatim>\<open>addjob\<close>, the batches 6 to 8 arrive before \<^verbatim>\<open>pid2jid\<close>, before
  \<^verbatim>\<open>getjobpid\<close> and before \<^verbatim>\<open>printf\<close>. Whether a handler can run at these points is
  a matter of the mask the caller has set: \<^verbatim>\<open>eval\<close> has blocked \<^verbatim>\<open>SIGCHLD\<close>,
  \<^verbatim>\<open>SIGINT\<close> and \<^verbatim>\<open>SIGTSTP\<close>, and the first call of \<^verbatim>\<open>sigprocmask\<close> here undoes
  that for the rest of a pipeline.\<close>

definition launch ::
  "bool \<Rightarrow> int \<Rightarrow> string \<Rightarrow> signal set \<Rightarrow> sig_event list list \<Rightarrow> sig_event list list \<Rightarrow> shell \<Rightarrow> outcome" where
  "launch bg p cl prev_mask bs evs s =
     (if bg then
        andthen (addjob_steps bs s p BG cl) (\<lambda>s1.
        andthen (arrive (batch bs 6) s1) (\<lambda>s2.
          let j = pid2jid (jobs s2) p in
          andthen (arrive (batch bs 7) s2) (\<lambda>s3.
            case getjobpid (jobs s3) p of
              None \<Rightarrow> Faulted NullDeref s3
            | Some i \<Rightarrow>
                andthen (arrive (batch bs 8) s3) (\<lambda>s4.
                  setmask prev_mask
                    (emit (Printf (''['' @ show_int j @ ''] ('' @ show_int p @ '') ''
                                   @ cmdline (jobs s4 ! i))) s4)))))
      else
        andthen (addjob_steps bs s p FG cl) (\<lambda>s1.
        andthen (setmask prev_mask s1) (waitfg p evs)))"

definition has_piping :: "string list \<Rightarrow> int" where
  "has_piping argv = (if ''|'' \<in> set argv then 1 else 0)"

text \<open>The first loop of \<^verbatim>\<open>my_pipe\<close>: the rows of \<^verbatim>\<open>new_argv\<close>, one per stage;
  \<^verbatim>\<open>count\<close> after its increment is the number of rows.\<close>

fun split_pipe :: "string list \<Rightarrow> string list \<Rightarrow> string list list" where
  "split_pipe [] cur = [cur]"
| "split_pipe (a # as) cur =
     (if a = ''|'' then cur # split_pipe as [] else split_pipe as (cur @ [a]))"

text \<open>\<^verbatim>\<open>setup_redirection\<close> overwrites every word \<^verbatim>\<open><\<close> and \<^verbatim>\<open>>\<close> of the argument
  vector with \<^verbatim>\<open>NULL\<close> (its loop steps over the word it has just overwritten), so what
  \<^verbatim>\<open>execvp\<close> reads afterwards are the words before the first of them. The files it
  opens and the descriptors it rebinds are not part of the model.\<close>

definition redirected :: "string list \<Rightarrow> string list" where
  "redirected args = takeWhile (\<lambda>a. a \<noteq> ''<'' \<and> a \<noteq> ''>'') args"

text \<open>A forked child starts with no pending signal.\<close>

definition child_of :: "signal set \<Rightarrow> shell \<Rightarrow> shell" where
  "child_of prev_mask s = emit (Setpgid 0 0) (s\<lparr>sigmask := prev_mask, pending := []\<rparr>)"

text \<open>The second loop of \<^verbatim>\<open>my_pipe\<close>, from stage \<open>j\<close> on. In the child the model
  follows the job control only (mask, process group, \<^verbatim>\<open>execvp\<close>) and leaves the
  descriptors out; when \<^verbatim>\<open>execvp\<close> fails the child returns from \<^verbatim>\<open>my_pipe\<close>. In the
  parent a batch of \<open>during w j\<close> arrives before \<^verbatim>\<open>pipe\<close>, before \<^verbatim>\<open>fork\<close>, before
  \<^verbatim>\<open>setpgid\<close> and before each of the two \<^verbatim>\<open>close\<close> statements; the rest belongs to
  the registration. The parent's calls of \<^verbatim>\<open>Signal\<close> install the handlers that are
  installed already.\<close>

fun pipe_loop ::
  "world \<Rightarrow> bool \<Rightarrow> signal set \<Rightarrow> string \<Rightarrow> nat \<Rightarrow> string list list \<Rightarrow> int \<Rightarrow> shell \<Rightarrow> outcome" where
  "pipe_loop w bg prev_mask cl j [] prev_fd s = Returned s"
| "pipe_loop w bg prev_mask cl j (stage # rest) prev_fd s =
     andthen (arrive (batch (during w j) 0) s) (\<lambda>s0.
       case pipe_ret w j of
         None \<Rightarrow> Returned (emit (Printf ''Piping error'') (emit (Pipe False) s0))
       | Some (rd, wr) \<Rightarrow>
           (let s1 = emit (Pipe True) s0; p = fork_ret w j in
            if p = 0 then
              (let s2 = child_of prev_mask s1 in
               case junk w j of
                 None \<Rightarrow> Faulted WildRead s2
               | Some g \<Rightarrow>
                   (case redirected (stage @ g) of
                      [] \<Rightarrow> Faulted NullDeref s2
                    | a # as \<Rightarrow>
                        if exec_ok w then Execed (emit (Execvp (a # as)) s2)
                        else Returned (emit (Stderr (''Failed to execute command: '' @ a
                                                      @ ''\<newline>'')) s2)))
            else if p < 0 then Returned (emit (Perror ''fork'') s1)
            else
              andthen
                (stmts [emit (Fork p), emit (Setpgid p p),
                        \<lambda>s. if prev_fd \<noteq> - 1 then emit (Close prev_fd) s else s,
                        emit (Close wr)]
                   (drop 1 (during w j)) s1)
                (\<lambda>s4.
                   andthen (launch bg p cl prev_mask (drop 5 (during w j)) (wake w j) s4)
                     (\<lambda>s5. pipe_loop w bg prev_mask cl (Suc j) rest rd s5))))"

definition my_pipe :: "string list \<Rightarrow> signal set \<Rightarrow> string \<Rightarrow> world \<Rightarrow> shell \<Rightarrow> outcome" where
  "my_pipe argv prev_mask cl w s =
     pipe_loop w (last argv = ''&'') prev_mask cl 0 (split_pipe argv []) (- 1) s"

text \<open>\<^verbatim>\<open>eval\<close>, from the result \<open>argv\<close> of \<^verbatim>\<open>parseline(cmdline, argv)\<close> on; \<open>cl\<close>
  is the command line as typed. In the child, \<^verbatim>\<open>strcmp(argv[argc-1], "&")\<close> reads
  \<^verbatim>\<open>NULL\<close> when the last word was a redirection sign, and \<^verbatim>\<open>execvp\<close> reads
  \<^verbatim>\<open>NULL\<close> as the program name when the first word was one. In the parent a batch of
  \<open>during w 0\<close> arrives before \<^verbatim>\<open>fork\<close> and before \<^verbatim>\<open>setpgid\<close>; the rest belongs to
  the registration.\<close>

definition eval :: "string \<Rightarrow> string list \<Rightarrow> world \<Rightarrow> shell \<Rightarrow> outcome" where
  "eval cl argv w s =
     (if argv = [] then Returned s
      else if hd argv \<in> set [''quit'', ''jobs'', ''bg'', ''fg''] then
        (case builtin_cmd argv (wake w 0) s of
           (Returned s', err) \<Rightarrow> if err \<noteq> 0 then Exited err s' else Returned s'
         | (out, err) \<Rightarrow> out)
      else if has_piping argv = 1 then
        my_pipe argv (sigmask s) cl w (s\<lparr>sigmask := sigmask s \<union> {SIGCHLD, SIGINT, SIGTSTP}\<rparr>)
      else
        (let prev_mask = sigmask s;
             s1 = s\<lparr>sigmask := sigmask s \<union> {SIGCHLD, SIGINT, SIGTSTP}\<rparr>;
             p = fork_ret w 0
         in if p < 0 then Returned (emit (Printf ''Error forking'') s1)
            else if p = 0 then
              (let s2 = child_of prev_mask s1 in
               if last argv = ''<'' \<or> last argv = ''>'' then Faulted NullDeref s2
               else
                 (case redirected (if last argv = ''&'' then butlast argv else argv) of
                    [] \<Rightarrow> Faulted NullDeref s2
                  | a # as \<Rightarrow>
                      if exec_ok w then Execed (emit (Execvp (a # as)) s2)
                      else Exited (- 1) (emit (Printf (a @ '': Command not found\<newline>'')) s2)))
            else
              andthen (stmts [emit (Fork p), emit (Setpgid p p)] (during w 0) s1)
                (launch (last argv = ''&'') p cl prev_mask (drop 2 (during w 0)) (wake w 0))))"

text \<open>\<^verbatim>\<open>main\<close> clears the table before its loop.\<close>

definition init_shell :: "bool \<Rightarrow> signal set \<Rightarrow> shell" where
  "init_shell v m =
     \<lparr>jobs = initjobs (replicate MAXJOBS \<lparr>pid = 0, jid = 0, state = UNDEF, cmdline = []\<rparr>),
      verbose = v, sigmask = m, pending = [], ready = False, trace = []\<rparr>"

section \<open>Predicates on the job table\<close>

text \<open>The table as the helper routines keep it: \<^verbatim>\<open>MAXJOBS\<close> slots; a free slot has pid
  0, jid 0 and state \<^verbatim>\<open>UNDEF\<close>; a used slot has a positive pid, a jid in
  \<open>1..MAXJOBS\<close> that no other slot has, and a state other than \<^verbatim>\<open>UNDEF\<close>.\<close>

definition table_ok :: "job_t list \<Rightarrow> bool" where
  "table_ok js \<longleftrightarrow>
     length js = MAXJOBS \<and>
     (\<forall>j\<in>set js. 0 \<le> pid j \<and> 0 \<le> jid j \<and> jid j \<le> int MAXJOBS \<and>
        (pid j = 0 \<longleftrightarrow> jid j = 0) \<and> (pid j = 0 \<longleftrightarrow> state j = UNDEF)) \<and>
     distinct (filter (\<lambda>i. i \<noteq> 0) (map jid js))"

definition pids_unique :: "job_t list \<Rightarrow> bool" where
  "pids_unique js \<longleftrightarrow> distinct (filter (\<lambda>p. p \<noteq> 0) (map pid js))"


definition fg_count :: "job_t list \<Rightarrow> nat" where
  "fg_count js = length (filter (\<lambda>j. state j = FG) js)"

definition nofg :: "job_t list \<Rightarrow> bool" where
  "nofg js \<longleftrightarrow> (\<forall>j\<in>set js. state j \<noteq> FG)"


text \<open>\<open>settled s\<close>: every pending signal is blocked, as the kernel has it whenever the
  main program runs.\<close>

definition settled :: "shell \<Rightarrow> bool" where
  "settled s \<longleftrightarrow> list_all (\<lambda>e. sig_of e \<in> sigmask s) (pending s)"

text \<open>\<open>calmer js js'\<close>: slot by slot, a job that is in the foreground in \<open>js'\<close> is the
  unchanged job of \<open>js\<close>.\<close>

definition calmer :: "job_t list \<Rightarrow> job_t list \<Rightarrow> bool" where
  "calmer js js' \<longleftrightarrow> list_all2 (\<lambda>a b. state b = FG \<longrightarrow> b = a) js js'"

text \<open>The number of \<^verbatim>\<open>sigsuspend\<close> calls in a log.\<close>

fun is_suspend :: "effect \<Rightarrow> bool" where
  "is_suspend (Sigsuspend m) = True"
| "is_suspend e = False"

definition suspends :: "effect list \<Rightarrow> nat" where
  "suspends t = length (filter is_suspend t)"

text \<open>\<open>names_job js ident i\<close>: the argument \<open>ident\<close> of \<^verbatim>\<open>bg\<close> or \<^verbatim>\<open>fg\<close> (a
  \<^verbatim>\<open>%jid\<close> or a pid) is resolved by \<^verbatim>\<open>do_bgfg\<close> to slot \<open>i\<close> of the table.\<close>

definition names_job :: "job_t list \<Rightarrow> string \<Rightarrow> nat \<Rightarrow> bool" where
  "names_job js ident i \<longleftrightarrow>
     (if take 1 ident = ''%''
      then atoi (drop 1 ident) \<noteq> 0 \<and> getjobjid js (atoi (drop 1 ident)) = Some i
      else atoi ident \<noteq> 0 \<and> getjobpid js (atoi ident) = Some i)"

text \<open>What one status change does to the job it names, and the notice written for it.\<close>

definition after_status :: "wstatus \<Rightarrow> job_t \<Rightarrow> job_t" where
  "after_status st j = (case st of WStopped sg \<Rightarrow> j\<lparr>state := ST\<rparr> | WSignaled sg \<Rightarrow> clearjob j | WExited c \<Rightarrow> clearjob j)"

definition notice_of :: "job_t list \<Rightarrow> reaped \<Rightarrow> effect list" where
  "notice_of js r =
     (case getjobpid js (rpid r) of
        None \<Rightarrow> []
      | Some i \<Rightarrow>
          (case rstatus r of
             WStopped sg \<Rightarrow> [Write (stop_notice (js ! i) sg)]
           | WSignaled sg \<Rightarrow> [Write (term_notice (js ! i) sg)]
           | WExited c \<Rightarrow> []))"

definition one_line :: "string \<Rightarrow> bool" where
  "one_line str \<longleftrightarrow> str \<noteq> [] \<and> last str = CHR 0x0A \<and> CHR 0x0A \<notin> set (butlast str)"

definition reap_one :: "reaped \<Rightarrow> shell \<Rightarrow> shell" where
  "reap_one r s =
     s\<lparr>jobs := (case getjobpid (jobs s) (rpid r) of
                  None \<Rightarrow> jobs s
                | Some i \<Rightarrow> (jobs s)[i := after_status (rstatus r) (jobs s ! i)]),
       trace := trace s @ notice_of (jobs s) r\<rparr>"

section \<open>Example states\<close>

text \<open>A table with three live jobs (jids 1, 2 and 4: the job with jid 3 has gone), and a
  shell at the prompt with that table.\<close>

definition free_slot :: job_t where
  "free_slot = \<lparr>pid = 0, jid = 0, state = UNDEF, cmdline = []\<rparr>"

definition demo_jobs :: "job_t list" where
  "demo_jobs =
     [\<lparr>pid = 100, jid = 1, state = BG, cmdline = ''sleep 5 &\<newline>''\<rparr>,
      \<lparr>pid = 101, jid = 2, state = ST, cmdline = ''cat\<newline>''\<rparr>,
      free_slot,
      \<lparr>pid = 103, jid = 4, state = BG, cmdline = ''sleep 9 &\<newline>''\<rparr>] @ replicate 12 free_slot"

definition demo_shell :: shell where
  "demo_shell = \<lparr>jobs = demo_jobs, verbose = False, sigmask = {}, pending = [], ready = False, trace = []\<rparr>"

text \<open>The same shell with the job of pid 101 in the foreground, and the status change
  that reports its normal exit.\<close>

definition fg_shell :: shell where
  "fg_shell = demo_shell\<lparr>jobs := demo_jobs[1 := \<lparr>pid = 101, jid = 2, state = FG, cmdline = ''cat\<newline>''\<rparr>]\<rparr>"

definition cat_status :: reaped where
  "cat_status = \<lparr>rpid = 101, rstatus = WExited 0, wr_ok = True\<rparr>"

text \<open>A full table; an environment in which every \<^verbatim>\<open>fork\<close> and \<^verbatim>\<open>pipe\<close> succeeds and
  no signal arrives (the \<open>j\<close>-th child gets pid \<open>p + j\<close>); status changes for the
  handler.\<close>

definition full_jobs :: "job_t list" where
  "full_jobs = map (\<lambda>k. \<lparr>pid = 100 + int k, jid = int k, state = BG, cmdline = ''sleep 60 &\<newline>''\<rparr>) [1..<17]"

definition full_shell :: shell where
  "full_shell = \<lparr>jobs = full_jobs, verbose = False, sigmask = {}, pending = [], ready = False, trace = []\<rparr>"

definition quiet_world :: "int \<Rightarrow> world" where
  "quiet_world p = \<lparr>fork_ret = (\<lambda>j. p + int j), pipe_ret = (\<lambda>j. Some (3, 4)), exec_ok = True,
      junk = (\<lambda>j. Some []), during = (\<lambda>j. []), wake = (\<lambda>j. [])\<rparr>"

definition stray_stop :: "reaped list" where
  "stray_stop = [\<lparr>rpid = 100, rstatus = WExited 0, wr_ok = True\<rparr>,
                 \<lparr>rpid = 555, rstatus = WStopped 20, wr_ok = True\<rparr>]"

definition three_changes :: "reaped list" where
  "three_changes =
     [\<lparr>rpid = 100, rstatus = WStopped 19, wr_ok = True\<rparr>,
      \<lparr>rpid = 103, rstatus = WSignaled 9, wr_ok = True\<rparr>,
      \<lparr>rpid = 101, rstatus = WExited 0, wr_ok = True\<rparr>]"

text \<open>A pipeline of two stages, in the background and in the foreground.\<close>

definition ls_wc_bg :: "string list" where
  "ls_wc_bg = [''ls'', ''|'', ''wc'', ''&'']"

definition ls_wc_fg :: "string list" where
  "ls_wc_fg = [''ls'', ''|'', ''wc'']"

text \<open>A run that ends with two foreground entries. \<^verbatim>\<open>sleep 100 &\<close> takes slot 0.
  Then the pipeline \<^verbatim>\<open>ls | wc\<close> runs in the foreground: its first stage (pid 201) exits
  while the shell waits for it; its second stage (pid 202) exits so soon that the
  \<^verbatim>\<open>SIGCHLD\<close> arrives inside \<^verbatim>\<open>addjob\<close>, after \<^verbatim>\<open>jobs[i].pid = pid\<close> and before
  \<^verbatim>\<open>jobs[i].state = state\<close> (\<^verbatim>\<open>my_pipe\<close> has unblocked the signal after the first
  stage). Back at the prompt the background job exits, and \<^verbatim>\<open>sleep 5\<close> is started.\<close>

definition child_exits :: "int \<Rightarrow> sig_event" where
  "child_exits p = Chld [\<lparr>rpid = p, rstatus = WExited 0, wr_ok = True\<rparr>]"

definition after_sleep_bg :: outcome where
  "after_sleep_bg =
     eval ''sleep 100 &\<newline>'' [''sleep'', ''100'', ''&''] (quiet_world 200) (init_shell False {})"

definition racing_world :: world where
  "racing_world =
     (quiet_world 201)
       \<lparr>wake := (\<lambda>j. if j = 0 then [[], [], [child_exits 201]] else []),
        during := (\<lambda>j. if j = 1 then replicate 7 [] @ [[child_exits 202]] else [])\<rparr>"

definition after_pipeline :: outcome where
  "after_pipeline = eval ''ls | wc\<newline>'' ls_wc_fg racing_world (state_of after_sleep_bg)"

definition after_reap :: outcome where
  "after_reap = arrive [child_exits 200] (state_of after_pipeline)"

definition after_sleep_fg :: outcome where
  "after_sleep_fg =
     eval ''sleep 5\<newline>'' [''sleep'', ''5''] (quiet_world 203) (state_of after_reap)"


section \<open>Properties of the job table\<close>

lemma first_idx_Some: "first_idx P xs = Some i \<Longrightarrow> i < length xs \<and> P (xs ! i) \<and> (\<forall>k<i. \<not> P (xs ! k))"
proof (induction xs arbitrary: i)
  case Nil
  then show ?case by simp
next
  case (Cons x xs)
  show ?case
  proof (cases "P x")
    case True
    with Cons.prems show ?thesis by simp
  next
    case False
    with Cons.prems obtain k where k: "first_idx P xs = Some k" "i = Suc k" by auto
    from Cons.IH [OF k(1)] False k(2) show ?thesis
      by (auto simp: nth_Cons split: nat.splits)
  qed
qed

lemma first_idx_None: "first_idx P xs = None \<longleftrightarrow> (\<forall>x\<in>set xs. \<not> P x)"
  by (induction xs) auto

lemma mark_taken_Inr:
  "mark_taken js t = Inr t' \<Longrightarrow>
     length t' = length t \<and>
     (\<forall>j\<in>set js. 0 \<le> jid j \<and> (jid j \<noteq> 0 \<longrightarrow> nat (jid j) < length t)) \<and>
     (\<forall>k<length t. t' ! k = (t ! k \<or> (\<exists>j\<in>set js. jid j \<noteq> 0 \<and> jid j = int k)))"
proof (induction js arbitrary: t)
  case Nil
  then show ?case by simp
next
  case (Cons j js)
  show ?case
  proof (cases "jid j = 0")
    case True
    with Cons.prems have "mark_taken js t = Inr t'" by simp
    from Cons.IH [OF this] True show ?thesis by auto
  next
    case False
    with Cons.prems have rng: "0 \<le> jid j" "nat (jid j) < length t"
      and rec: "mark_taken js (t[nat (jid j) := True]) = Inr t'"
      by (auto split: if_splits)
    from Cons.IH [OF rec] have len: "length t' = length t"
      and rg: "\<forall>j\<in>set js. 0 \<le> jid j \<and> (jid j \<noteq> 0 \<longrightarrow> nat (jid j) < length t)"
      and ih: "\<forall>k<length t. t' ! k = ((t[nat (jid j) := True]) ! k \<or> (\<exists>j\<in>set js. jid j \<noteq> 0 \<and> jid j = int k))"
      by auto
    have "t' ! k = (t ! k \<or> (\<exists>j\<in>set (j # js). jid j \<noteq> 0 \<and> jid j = int k))" if k: "k < length t" for k
    proof (cases "k = nat (jid j)")
      case True
      with ih k rng False show ?thesis by auto
    next
      case neq: False
      then have "int k \<noteq> jid j" using rng by auto
      with ih k neq show ?thesis by (auto simp: nth_list_update)
    qed
    with len rg rng show ?thesis by auto
  qed
qed

lemma mark_taken_defined:
  "\<forall>j\<in>set js. 0 \<le> jid j \<and> nat (jid j) < length t \<Longrightarrow> \<exists>t'. mark_taken js t = Inr t'"
  by (induction js arbitrary: t) auto

lemma scan_free_spec:
  "(scan_free t i = 0 \<and> (\<forall>k. i \<le> k \<and> k \<le> MAXJOBS \<longrightarrow> t ! k)) \<or>
   (int i \<le> scan_free t i \<and> scan_free t i \<le> int MAXJOBS \<and> \<not> t ! nat (scan_free t i) \<and>
      (\<forall>k. i \<le> k \<and> int k < scan_free t i \<longrightarrow> t ! k))"
proof (induction t i rule: scan_free.induct)
  case (1 t i)
  show ?case
  proof (cases "i \<le> MAXJOBS")
    case False
    then show ?thesis by (auto simp: scan_free.simps [of t i])
  next
    case le: True
    show ?thesis
    proof (cases "t ! i")
      case False
      with le show ?thesis by (auto simp: scan_free.simps [of t i])
    next
      case True
      with le have eq: "scan_free t i = scan_free t (Suc i)" by (simp add: scan_free.simps [of t i])
      from "1.IH" [OF le] True have ih:
        "(scan_free t (Suc i) = 0 \<and> (\<forall>k. Suc i \<le> k \<and> k \<le> MAXJOBS \<longrightarrow> t ! k)) \<or>
         (int (Suc i) \<le> scan_free t (Suc i) \<and> scan_free t (Suc i) \<le> int MAXJOBS \<and> \<not> t ! nat (scan_free t (Suc i)) \<and>
           (\<forall>k. Suc i \<le> k \<and> int k < scan_free t (Suc i) \<longrightarrow> t ! k))" by simp
      have step: "t ! k" if "i \<le> k" "Suc i \<le> k \<longrightarrow> t ! k" for k
        using that True by (cases "k = i") auto
      from ih show ?thesis unfolding eq
      proof (elim disjE conjE)
        assume z: "scan_free t (Suc i) = 0" and a: "\<forall>k. Suc i \<le> k \<and> k \<le> MAXJOBS \<longrightarrow> t ! k"
        have "\<forall>k. i \<le> k \<and> k \<le> MAXJOBS \<longrightarrow> t ! k" using a step by blast
        with z show "(scan_free t (Suc i) = 0 \<and> (\<forall>k. i \<le> k \<and> k \<le> MAXJOBS \<longrightarrow> t ! k)) \<or>
          (int i \<le> scan_free t (Suc i) \<and> scan_free t (Suc i) \<le> int MAXJOBS \<and> \<not> t ! nat (scan_free t (Suc i)) \<and>
           (\<forall>k. i \<le> k \<and> int k < scan_free t (Suc i) \<longrightarrow> t ! k))" by blast
      next
        assume b: "int (Suc i) \<le> scan_free t (Suc i)" "scan_free t (Suc i) \<le> int MAXJOBS"
          "\<not> t ! nat (scan_free t (Suc i))"
          and a: "\<forall>k. Suc i \<le> k \<and> int k < scan_free t (Suc i) \<longrightarrow> t ! k"
        have "\<forall>k. i \<le> k \<and> int k < scan_free t (Suc i) \<longrightarrow> t ! k" using a step by blast
        moreover have "int i \<le> scan_free t (Suc i)" using b(1) by simp
        ultimately show "(scan_free t (Suc i) = 0 \<and> (\<forall>k. i \<le> k \<and> k \<le> MAXJOBS \<longrightarrow> t ! k)) \<or>
          (int i \<le> scan_free t (Suc i) \<and> scan_free t (Suc i) \<le> int MAXJOBS \<and> \<not> t ! nat (scan_free t (Suc i)) \<and>
           (\<forall>k. i \<le> k \<and> int k < scan_free t (Suc i) \<longrightarrow> t ! k))" using b by blast
      qed
    qed
  qed
qed

text \<open>What \<^verbatim>\<open>freejid\<close> returns, in terms of the jids stored in the table.\<close>

lemma freejid_spec:
  assumes "freejid js = Inr f"
  shows "(f = 0 \<and> (\<forall>k. 1 \<le> k \<and> k \<le> int MAXJOBS \<longrightarrow> k \<in> jid ` set js)) \<or>
         (1 \<le> f \<and> f \<le> int MAXJOBS \<and> f \<notin> jid ` set js \<and> (\<forall>k. 1 \<le> k \<and> k < f \<longrightarrow> k \<in> jid ` set js))"
proof -
  let ?t0 = "replicate (MAXJOBS + 1) False"
  from assms obtain t where t: "mark_taken js ?t0 = Inr t" and f: "f = scan_free t 1"
    by (auto simp: freejid_def split: sum.splits)
  have tk: "t ! k = (\<exists>j\<in>set js. jid j \<noteq> 0 \<and> jid j = int k)" if k: "k \<le> MAXJOBS" for k
  proof -
    from k have lt: "k < length ?t0" by simp
    then have "?t0 ! k = False" by (simp only: length_replicate nth_replicate)
    with mark_taken_Inr [OF t] lt show ?thesis by blast
  qed
  have mem: "k \<in> jid ` set js" if "t ! nat k" "1 \<le> k" "k \<le> int MAXJOBS" for k
  proof -
    from that have "nat k \<le> MAXJOBS" by simp
    from tk [OF this] that show ?thesis by auto
  qed
  from scan_free_spec [of t 1] show ?thesis unfolding f [symmetric]
  proof (elim disjE conjE)
    assume z: "f = 0" and a: "\<forall>k. 1 \<le> k \<and> k \<le> MAXJOBS \<longrightarrow> t ! k"
    have "k \<in> jid ` set js" if k: "1 \<le> k" "k \<le> int MAXJOBS" for k
    proof -
      from k a have "t ! nat k" by (auto dest: spec [of _ "nat k"])
      then show ?thesis using k by (rule mem)
    qed
    with z show ?thesis by blast
  next
    assume b: "int 1 \<le> f" "f \<le> int MAXJOBS" "\<not> t ! nat f"
      and a: "\<forall>k. 1 \<le> k \<and> int k < f \<longrightarrow> t ! k"
    have "nat f \<le> MAXJOBS" using b by simp
    from tk [OF this] b have notin: "f \<notin> jid ` set js" by auto
    have "k \<in> jid ` set js" if k: "1 \<le> k" "k < f" for k
    proof -
      from k a have "t ! nat k" by (auto dest: spec [of _ "nat k"])
      moreover have "k \<le> int MAXJOBS" using k b by simp
      ultimately show ?thesis using k(1) mem by blast
    qed
    with b notin show ?thesis by auto
  qed
qed


lemma freejid_defined:
  assumes "table_ok js"
  shows "\<exists>f. freejid js = Inr f"
proof -
  have "\<forall>j\<in>set js. 0 \<le> jid j \<and> nat (jid j) < length (replicate (MAXJOBS + 1) False)"
    using assms by (auto simp: table_ok_def)
  from mark_taken_defined [OF this] show ?thesis
    by (auto simp: freejid_def)
qed

lemma freejid_full:
  assumes ok: "table_ok js" and full: "\<forall>j\<in>set js. pid j \<noteq> 0"
  shows "freejid js = Inr 0"
proof -
  from freejid_defined [OF ok] obtain f where f: "freejid js = Inr f" by blast
  have nz: "filter (\<lambda>i. i \<noteq> 0) (map jid js) = map jid js"
    using ok full by (auto simp: table_ok_def filter_id_conv)
  with ok have d: "distinct (map jid js)" by (simp add: table_ok_def)
  have "card (set (map jid js)) = MAXJOBS"
    using distinct_card [OF d] ok by (simp add: table_ok_def)
  moreover have sub: "set (map jid js) \<subseteq> {1..int MAXJOBS}"
    using ok full by (fastforce simp: table_ok_def)
  moreover have "card {1..int MAXJOBS} = MAXJOBS" by simp
  ultimately have "set (map jid js) = {1..int MAXJOBS}"
    by (intro card_subset_eq) auto
  then have "\<not> (1 \<le> f \<and> f \<le> int MAXJOBS \<and> f \<notin> jid ` set js)" by auto
  with freejid_spec [OF f] have "f = 0" by blast
  with f show ?thesis by simp
qed



lemma distinct_filter_update_fresh:
  "distinct (filter P (map f xs)) \<Longrightarrow> f y \<notin> set (map f xs) \<Longrightarrow>
     distinct (filter P (map f (xs[i := y])))"
proof (induction xs arbitrary: i)
  case Nil
  then show ?case by simp
next
  case (Cons x xs)
  show ?case
  proof (cases i)
    case 0
    with Cons.prems show ?thesis by (auto split: if_splits)
  next
    case (Suc k)
    have sub: "set (xs[k := y]) \<subseteq> insert y (set xs)" by (rule set_update_subset_insert)
    have ih: "distinct (filter P (map f (xs[k := y])))"
      using Cons.IH [of k] Cons.prems by (auto split: if_splits)
    have "f x \<notin> set (filter P (map f (xs[k := y])))" if "P (f x)"
    proof -
      from that Cons.prems have "f x \<notin> set (filter P (map f xs))" by simp
      moreover from Cons.prems have "f x \<noteq> f y" by auto
      ultimately show ?thesis using sub that by auto
    qed
    with ih Suc show ?thesis by simp
  qed
qed

lemma distinct_filter_update_drop:
  "distinct (filter P (map f xs)) \<Longrightarrow> \<not> P (f y) \<Longrightarrow>
     distinct (filter P (map f (xs[i := y])))"
proof (induction xs arbitrary: i)
  case Nil
  then show ?case by simp
next
  case (Cons x xs)
  show ?case
  proof (cases i)
    case 0
    with Cons.prems show ?thesis by (auto split: if_splits)
  next
    case (Suc k)
    have sub: "set (xs[k := y]) \<subseteq> insert y (set xs)" by (rule set_update_subset_insert)
    have ih: "distinct (filter P (map f (xs[k := y])))"
      using Cons.IH [of k] Cons.prems by (auto split: if_splits)
    have "f x \<notin> set (filter P (map f (xs[k := y])))" if "P (f x)"
    proof -
      from that Cons.prems(1) have "f x \<notin> set (filter P (map f xs))" by simp
      then show ?thesis using sub that Cons.prems(2) by auto
    qed
    with ih Suc show ?thesis by simp
  qed
qed

lemma job_overwrite:
  "(j::job_t)\<lparr>pid := p, state := st, jid := f, cmdline := c\<rparr> = \<lparr>pid = p, jid = f, state = st, cmdline = c\<rparr>"
  by (cases j) simp

lemma addjob_cases:
  assumes "addjob s p st cmd = Inr (r, s')"
  shows "(r = 0 \<and> jobs s' = jobs s) \<or>
         (r = 1 \<and> 1 \<le> p \<and> (\<exists>i f. first_idx (\<lambda>j. pid j = 0) (jobs s) = Some i \<and>
            freejid (jobs s) = Inr f \<and> f \<noteq> 0 \<and>
            jobs s' = (jobs s)[i := \<lparr>pid = p, jid = f, state = st, cmdline = cmd\<rparr>]))"
  using assms
  by (auto simp: addjob_def emit_def Let_def job_overwrite split: if_splits sum.splits option.splits)


lemma distinct_filter_nth:
  "distinct (filter P (map f xs)) \<Longrightarrow> a < length xs \<Longrightarrow> b < length xs \<Longrightarrow> a \<noteq> b \<Longrightarrow>
     P (f (xs ! a)) \<Longrightarrow> f (xs ! a) \<noteq> f (xs ! b)"
proof (induction xs arbitrary: a b)
  case Nil
  then show ?case by simp
next
  case (Cons x xs)
  show ?case
  proof (cases a)
    case a0: 0
    with Cons.prems obtain b' where b: "b = Suc b'" "b' < length xs" by (cases b) auto
    from a0 Cons.prems have px: "P (f x)" by simp
    with Cons.prems(1) have nin: "f x \<notin> set (filter P (map f xs))" by simp
    have mem: "xs ! b' \<in> set xs" using b(2) by simp
    have "f (xs ! b') \<noteq> f x"
    proof
      assume eq: "f (xs ! b') = f x"
      from mem have "f (xs ! b') \<in> f ` set xs" by (rule imageI)
      with eq px have "f x \<in> set (filter P (map f xs))" by simp
      with nin show False by contradiction
    qed
    with a0 b show ?thesis by simp
  next
    case (Suc a')
    show ?thesis
    proof (cases b)
      case 0
      from Suc Cons.prems have pa: "P (f (xs ! a'))" "a' < length xs" by auto
      have "f (xs ! a') \<noteq> f x"
      proof
        assume eq: "f (xs ! a') = f x"
        with pa have "P (f x)" by simp
        with Cons.prems(1) have nin: "f x \<notin> set (filter P (map f xs))" by simp
        from pa(2) have "xs ! a' \<in> set xs" by simp
        then have "f (xs ! a') \<in> f ` set xs" by (rule imageI)
        with eq \<open>P (f x)\<close> have "f x \<in> set (filter P (map f xs))" by simp
        with nin show False by contradiction
      qed
      with Suc 0 show ?thesis by simp
    next
      case b: (Suc b')
      from Cons.prems have "distinct (filter P (map f xs))" by (auto split: if_splits)
      from Cons.IH [OF this, of a' b'] Cons.prems Suc b show ?thesis by simp
    qed
  qed
qed

lemma table_ok_update:
  assumes ok: "table_ok js"
    and y: "0 \<le> pid y" "0 \<le> jid y" "jid y \<le> int MAXJOBS"
      "pid y = 0 \<longleftrightarrow> jid y = 0" "pid y = 0 \<longleftrightarrow> state y = UNDEF"
    and d: "jid y = 0 \<or> jid y \<notin> jid ` set js \<or> (i < length js \<and> jid (js ! i) = jid y)"
  shows "table_ok (js[i := y])"
proof -
  have "distinct (filter (\<lambda>i. i \<noteq> 0) (map jid (js[i := y])))"
    using d
  proof (elim disjE)
    assume "jid y = 0"
    with ok show ?thesis by (intro distinct_filter_update_drop) (auto simp: table_ok_def)
  next
    assume "jid y \<notin> jid ` set js"
    with ok show ?thesis by (intro distinct_filter_update_fresh) (auto simp: table_ok_def)
  next
    assume "i < length js \<and> jid (js ! i) = jid y"
    then have "map jid (js[i := y]) = map jid js"
      by (simp add: map_update list_update_same_conv)
    with ok show ?thesis by (simp add: table_ok_def)
  qed
  moreover have "set (js[i := y]) \<subseteq> insert y (set js)" by (rule set_update_subset_insert)
  ultimately show ?thesis using ok y unfolding table_ok_def
    by (metis (no_types, lifting) insertE length_list_update subsetD)
qed

lemma addjob_table_ok:
  assumes ok: "table_ok (jobs s)" and add: "addjob s p st cmd = Inr (r, s')" and st: "st \<noteq> UNDEF"
  shows "table_ok (jobs s')"
proof -
  from addjob_cases [OF add] show ?thesis
  proof (elim disjE conjE exE)
    assume "jobs s' = jobs s"
    with ok show ?thesis by simp
  next
    fix i f
    assume p: "1 \<le> p" and f: "freejid (jobs s) = Inr f" "f \<noteq> 0"
      and eq: "jobs s' = (jobs s)[i := \<lparr>pid = p, jid = f, state = st, cmdline = cmd\<rparr>]"
    from freejid_spec [OF f(1)] f(2) have "1 \<le> f" "f \<le> int MAXJOBS" "f \<notin> jid ` set (jobs s)"
      by auto
    with p st show ?thesis unfolding eq by (intro table_ok_update [OF ok]) auto
  qed
qed


lemma addjob_full:
  assumes ok: "table_ok (jobs s)" and full: "\<forall>j\<in>set (jobs s). pid j \<noteq> 0" and p: "1 \<le> p"
  shows "addjob s p st cmd = Inr (0, emit (Printf ''Tried to create too many jobs\<newline>'') s)"
  using freejid_full [OF ok full] p by (simp add: addjob_def)



lemma clearjob_fields [simp]:
  "pid (clearjob j) = 0" "jid (clearjob j) = 0" "state (clearjob j) = UNDEF" "cmdline (clearjob j) = []"
  by (simp_all add: clearjob_def)








section \<open>Handlers never put a job in the foreground\<close>

lemma emit_fields [simp]:
  "jobs (emit e s) = jobs s" "sigmask (emit e s) = sigmask s" "verbose (emit e s) = verbose s"
  "ready (emit e s) = ready s" "trace (emit e s) = trace s @ [e]"
  by (simp_all add: emit_def)

lemma set_state_fields [simp]:
  "jobs (set_state i st s) = (jobs s)[i := (jobs s ! i)\<lparr>state := st\<rparr>]"
  "sigmask (set_state i st s) = sigmask s" "verbose (set_state i st s) = verbose s"
  "ready (set_state i st s) = ready s" "trace (set_state i st s) = trace s"
  by (simp_all add: set_state_def)

lemma calmer_refl [simp]: "calmer js js"
  by (simp add: calmer_def list_all2_refl)

lemma calmer_trans: "calmer a b \<Longrightarrow> calmer b c \<Longrightarrow> calmer a c"
  by (auto simp: calmer_def list_all2_conv_all_nth)

lemma calmer_update: "state y \<noteq> FG \<Longrightarrow> calmer js (js[i := y])"
proof -
  assume y: "state y \<noteq> FG"
  have "state (js[i := y] ! k) = FG \<longrightarrow> js[i := y] ! k = js ! k" if "k < length js" for k
    using that y by (cases "k = i") auto
  then show ?thesis by (simp add: calmer_def list_all2_conv_all_nth)
qed



lemma calmer_fg_count: "calmer js js' \<Longrightarrow> fg_count js' \<le> fg_count js"
  unfolding calmer_def fg_count_def
  by (induction js js' rule: list_all2_induct) auto


lemma deletejob_calmer: "calmer js (snd (deletejob js q))"
  by (auto simp: deletejob_def calmer_update split: option.splits)

lemma sigchld_handler_calmer: "calmer (jobs s) (jobs (state_of (sigchld_handler rs s)))"
proof (induction rs arbitrary: s)
  case Nil
  then show ?case by simp
next
  case (Cons r rs)
  show ?case
  proof (cases "rpid r \<le> 0")
    case True
    then show ?thesis by simp
  next
    case pos: False
    show ?thesis
    proof (cases "rstatus r")
      case (WStopped sg)
      show ?thesis
      proof (cases "getjobpid (jobs s) (rpid r)")
        case None
        with pos WStopped show ?thesis by simp
      next
        case (Some i)
        let ?s1 = "set_state i ST s"
        have c1: "calmer (jobs s) (jobs ?s1)" by (simp add: calmer_update)
        show ?thesis
        proof (cases "wr_ok r")
          case True
          let ?s2 = "emit (Write (stop_notice (jobs ?s1 ! i) sg)) ?s1"
          have "calmer (jobs ?s2) (jobs (state_of (sigchld_handler rs ?s2)))" by (rule Cons.IH)
          with c1 have "calmer (jobs s) (jobs (state_of (sigchld_handler rs ?s2)))"
            by (auto intro: calmer_trans)
          with pos WStopped Some True show ?thesis by (simp add: Let_def)
        next
          case False
          with pos WStopped Some c1 show ?thesis by (simp add: Let_def)
        qed
      qed
    next
      case (WSignaled sg)
      show ?thesis
      proof (cases "getjobpid (jobs s) (rpid r)")
        case None
        with pos WSignaled show ?thesis by simp
      next
        case (Some i)
        show ?thesis
        proof (cases "wr_ok r")
          case True
          let ?s2 = "(emit (Write (term_notice (jobs s ! i) sg)) s)\<lparr>jobs := snd (deletejob (jobs s) (rpid r))\<rparr>"
          have "calmer (jobs s) (jobs ?s2)" by (simp add: deletejob_calmer)
          moreover have "calmer (jobs ?s2) (jobs (state_of (sigchld_handler rs ?s2)))" by (rule Cons.IH)
          ultimately have "calmer (jobs s) (jobs (state_of (sigchld_handler rs ?s2)))"
            by (rule calmer_trans)
          with pos WSignaled Some True show ?thesis by simp
        next
          case False
          with pos WSignaled Some show ?thesis by simp
        qed
      qed
    next
      case (WExited c)
      let ?s2 = "s\<lparr>jobs := snd (deletejob (jobs s) (rpid r))\<rparr>"
      have "calmer (jobs s) (jobs ?s2)" by (simp add: deletejob_calmer)
      moreover have "calmer (jobs ?s2) (jobs (state_of (sigchld_handler rs ?s2)))" by (rule Cons.IH)
      ultimately have "calmer (jobs s) (jobs (state_of (sigchld_handler rs ?s2)))"
        by (rule calmer_trans)
      with pos WExited show ?thesis by simp
    qed
  qed
qed

lemma sigchld_handler_not_Blocked: "sigchld_handler rs s \<noteq> Blocked s'"
  by (induction rs arbitrary: s)
    (auto simp: Let_def split: wstatus.splits option.splits if_splits)

lemma sigchld_handler_not_Execed: "sigchld_handler rs s \<noteq> Execed s'"
  by (induction rs arbitrary: s)
    (auto simp: Let_def split: wstatus.splits option.splits if_splits)

lemma deliver_not_Blocked: "deliver e s \<noteq> Blocked s'"
  by (cases e) (auto simp: sigint_handler_def sigtstp_handler_def sigquit_handler_def
      sigusr1_handler_def sigchld_handler_not_Blocked Let_def split: option.splits)

lemma deliver_calmer: "calmer (jobs s) (jobs (state_of (deliver e s)))"
proof (cases e)
  case (Chld rs)
  then show ?thesis by (simp add: sigchld_handler_calmer)
next
  case Intr
  then show ?thesis by (simp add: sigint_handler_def Let_def)
next
  case Tstp
  then show ?thesis
    by (auto simp: sigtstp_handler_def Let_def calmer_update split: option.splits)
next
  case Quit
  then show ?thesis by (simp add: sigquit_handler_def)
next
  case Usr1
  then show ?thesis by (simp add: sigusr1_handler_def)
qed



lemma nofg_fgpid: "nofg js \<Longrightarrow> fgpid js = 0"
proof -
  assume "nofg js"
  then have "first_idx (\<lambda>j. state j = FG) js = None" by (simp add: first_idx_None nofg_def)
  then show ?thesis by (simp add: fgpid_def)
qed


lemma suspends_simps [simp]:
  "suspends [] = 0" "suspends (t @ u) = suspends t + suspends u"
  "suspends (e # t) = (if is_suspend e then 1 else 0) + suspends t"
  by (simp_all add: suspends_def)

lemma deletejob_snd_length [simp]: "length (snd (deletejob js q)) = length js"
  by (auto simp: deletejob_def split: option.splits)

lemma sigchld_handler_trace:
  "\<exists>t. trace (state_of (sigchld_handler rs s)) = trace s @ t \<and> suspends t = 0"
proof (induction rs arbitrary: s)
  case Nil
  then show ?case by simp
next
  case (Cons r rs)
  have step: "\<exists>t. trace (state_of (sigchld_handler rs s2)) = trace s @ t \<and> suspends t = 0"
    if "trace s2 = trace s @ u" "suspends u = 0" for s2 u
  proof -
    from Cons.IH [of s2] obtain t where "trace (state_of (sigchld_handler rs s2)) = trace s2 @ t"
      "suspends t = 0" by blast
    with that have "trace (state_of (sigchld_handler rs s2)) = trace s @ (u @ t) \<and> suspends (u @ t) = 0"
      by simp
    then show ?thesis by blast
  qed
  show ?case
  proof (cases "rpid r \<le> 0")
    case True
    then show ?thesis by simp
  next
    case pos: False
    show ?thesis
    proof (cases "rstatus r")
      case (WStopped sg)
      show ?thesis
      proof (cases "getjobpid (jobs s) (rpid r)")
        case None
        with pos WStopped show ?thesis by simp
      next
        case (Some i)
        show ?thesis
        proof (cases "wr_ok r")
          case True
          let ?s2 = "emit (Write (stop_notice (jobs (set_state i ST s) ! i) sg)) (set_state i ST s)"
          have "\<exists>t. trace (state_of (sigchld_handler rs ?s2)) = trace s @ t \<and> suspends t = 0"
            by (rule step [where u = "[Write (stop_notice (jobs (set_state i ST s) ! i) sg)]"]) simp_all
          with pos WStopped Some True show ?thesis by (simp add: Let_def)
        next
          case False
          with pos WStopped Some show ?thesis by (simp add: Let_def)
        qed
      qed
    next
      case (WSignaled sg)
      show ?thesis
      proof (cases "getjobpid (jobs s) (rpid r)")
        case None
        with pos WSignaled show ?thesis by simp
      next
        case (Some i)
        show ?thesis
        proof (cases "wr_ok r")
          case True
          let ?s2 = "(emit (Write (term_notice (jobs s ! i) sg)) s)\<lparr>jobs := snd (deletejob (jobs s) (rpid r))\<rparr>"
          have "\<exists>t. trace (state_of (sigchld_handler rs ?s2)) = trace s @ t \<and> suspends t = 0"
            by (rule step [where u = "[Write (term_notice (jobs s ! i) sg)]"]) simp_all
          with pos WSignaled Some True show ?thesis by simp
        next
          case False
          with pos WSignaled Some show ?thesis by simp
        qed
      qed
    next
      case (WExited c)
      let ?s2 = "s\<lparr>jobs := snd (deletejob (jobs s) (rpid r))\<rparr>"
      have "\<exists>t. trace (state_of (sigchld_handler rs ?s2)) = trace s @ t \<and> suspends t = 0"
        by (rule step [where u = "[]"]) simp_all
      with pos WExited show ?thesis by simp
    qed
  qed
qed

lemma deliver_trace:
  "\<exists>t. trace (state_of (deliver e s)) = trace s @ t \<and> suspends t = 0"
proof (cases e)
  case (Chld rs)
  then show ?thesis by (simp add: sigchld_handler_trace)
next
  case Intr
  then show ?thesis by (simp add: sigint_handler_def Let_def)
next
  case Tstp
  then show ?thesis by (simp add: sigtstp_handler_def Let_def split: option.splits)
next
  case Quit
  then show ?thesis by (simp add: sigquit_handler_def)
next
  case Usr1
  then show ?thesis by (simp add: sigusr1_handler_def)
qed


section \<open>The built-ins bg and fg when no transition applies\<close>

lemma do_bgfg_names_job:
  "names_job (jobs s) ident i \<Longrightarrow> do_bgfg (cmd # ident # rest) evs s = bgfg_job cmd i evs s"
  by (auto simp: names_job_def Let_def split: if_splits)

lemma eval_bgfg:
  assumes "cmd = ''bg'' \<or> cmd = ''fg''"
  shows "eval cl (cmd # args) w s = do_bgfg (cmd # args) (wake w 0) s"
  using assms by (cases "do_bgfg (cmd # args) (wake w 0) s") (auto simp: eval_def builtin_cmd_def)

text \<open>
  Claim C10. When \<^verbatim>\<open>bg\<close> names a job that is in state \<^verbatim>\<open>BG\<close> or \<^verbatim>\<open>FG\<close>, or
  \<^verbatim>\<open>fg\<close> names a job that is in state \<^verbatim>\<open>FG\<close>, neither branch of the last statement
  of \<^verbatim>\<open>do_bgfg\<close> is taken: the built-in returns with the very state it was called in
  (no signal sent, no field of any job changed, nothing printed), and so does \<^verbatim>\<open>eval\<close>
  of that command line.
\<close>

theorem bgfg_without_transition_changes_nothing:
  assumes "names_job (jobs s) ident i"
    and "(cmd = ''bg'' \<and> (state (jobs s ! i) = BG \<or> state (jobs s ! i) = FG)) \<or>
         (cmd = ''fg'' \<and> state (jobs s ! i) = FG)"
  shows "do_bgfg (cmd # ident # rest) evs s = Returned s \<and>
         eval cl (cmd # ident # rest) w s = Returned s"
proof -
  from assms(2) have b: "bgfg_job cmd i evs' s = Returned s" for evs'
    by (auto simp: bgfg_job_def Let_def)
  from assms(2) have c: "cmd = ''bg'' \<or> cmd = ''fg''" by blast
  show ?thesis
    using do_bgfg_names_job [OF assms(1)] b eval_bgfg [OF c] by simp
qed

theorem bgfg_without_transition_changes_nothing_witness:
  "names_job (jobs demo_shell) ''%1'' 0 \<and> state (jobs demo_shell ! 0) = BG \<and>
   do_bgfg [''bg'', ''%1''] [] demo_shell = Returned demo_shell \<and>
   names_job (jobs fg_shell) ''101'' 1 \<and> state (jobs fg_shell ! 1) = FG \<and>
   do_bgfg [''fg'', ''101''] [] fg_shell = Returned fg_shell"
proof -
  have a: "names_job (jobs demo_shell) ''%1'' 0" by code_simp
  have b: "state (jobs demo_shell ! 0) = BG" by code_simp
  have c: "names_job (jobs fg_shell) ''101'' 1" by code_simp
  have d: "state (jobs fg_shell ! 1) = FG" by code_simp
  from bgfg_without_transition_changes_nothing [OF a, of "''bg''" "[]" "[]"] b
  have "do_bgfg [''bg'', ''%1''] [] demo_shell = Returned demo_shell" by simp
  moreover from bgfg_without_transition_changes_nothing [OF c, of "''fg''" "[]" "[]"] d
  have "do_bgfg [''fg'', ''101''] [] fg_shell = Returned fg_shell" by simp
  ultimately show ?thesis using a b c d by simp
qed


section \<open>The stop handler\<close>

lemma table_okD:
  "table_ok js \<Longrightarrow> j \<in> set js \<Longrightarrow>
     0 \<le> pid j \<and> 0 \<le> jid j \<and> jid j \<le> int MAXJOBS \<and>
     (pid j = 0 \<longleftrightarrow> jid j = 0) \<and> (pid j = 0 \<longleftrightarrow> state j = UNDEF)"
  unfolding table_ok_def by blast

lemma getjobpid_unique:
  assumes ok: "table_ok js" and un: "pids_unique js" and i: "i < length js" and p: "pid (js ! i) \<noteq> 0"
  shows "getjobpid js (pid (js ! i)) = Some i"
proof -
  from i have mem: "js ! i \<in> set js" by simp
  from table_okD [OF ok mem] p have p1: "1 \<le> pid (js ! i)" by linarith
  from mem have "first_idx (\<lambda>j. pid j = pid (js ! i)) js \<noteq> None" by (auto simp: first_idx_None)
  then obtain k where k: "first_idx (\<lambda>j. pid j = pid (js ! i)) js = Some k" by blast
  from first_idx_Some [OF k] have kl: "k < length js" and kp: "pid (js ! k) = pid (js ! i)" by auto
  have "k = i"
  proof (rule ccontr)
    assume ne: "k \<noteq> i"
    from un have d: "distinct (filter (\<lambda>p. p \<noteq> 0) (map pid js))" by (simp only: pids_unique_def)
    from ne have ne': "i \<noteq> k" by simp
    from distinct_filter_nth [OF d i kl ne' p] have "pid (js ! i) \<noteq> pid (js ! k)" .
    with kp show False by simp
  qed
  with k p1 show ?thesis by (simp add: getjobpid_def)
qed




section \<open>The child-status handler\<close>

lemma sigchld_handler_append:
  "\<forall>r\<in>set rs1. 0 < rpid r \<Longrightarrow>
     sigchld_handler (rs1 @ rs2) s =
       (case sigchld_handler rs1 s of Returned s1 \<Rightarrow> sigchld_handler rs2 s1 | out \<Rightarrow> out)"
  by (induction rs1 arbitrary: s)
    (auto simp: Let_def split: wstatus.splits option.splits)

lemma sigchld_handler_head_fault:
  assumes "0 < rpid r" "getjobpid (jobs s) (rpid r) = None"
    and "rstatus r = WStopped sg \<or> rstatus r = WSignaled sg"
  shows "sigchld_handler (r # rs) s = Faulted NullDeref s"
  using assms by auto

lemma sigchld_handler_Faulted:
  assumes "\<forall>r\<in>set rs. 0 < rpid r" and "sigchld_handler rs s = Faulted f s'"
  shows "f = NullDeref \<and>
         (\<exists>rs1 r rs2. rs = rs1 @ r # rs2 \<and> sigchld_handler rs1 s = Returned s' \<and>
            (\<exists>sg. rstatus r = WStopped sg \<or> rstatus r = WSignaled sg) \<and>
            getjobpid (jobs s') (rpid r) = None)"
  using assms
proof (induction rs arbitrary: s)
  case Nil
  then show ?case by simp
next
  case (Cons r rs)
  from Cons.prems have pos: "0 < rpid r" and posr: "\<forall>r\<in>set rs. 0 < rpid r" by auto
  have here: ?case
    if "getjobpid (jobs s) (rpid r) = None" "rstatus r = WStopped sg \<or> rstatus r = WSignaled sg" for sg
  proof -
    from sigchld_handler_head_fault [OF pos that] Cons.prems(2) have "f = NullDeref" "s' = s" by auto
    moreover have "r # rs = [] @ r # rs \<and> sigchld_handler [] s = Returned s" by simp
    ultimately show ?thesis using that by blast
  qed
  have later: ?case if step: "\<And>rs'. sigchld_handler (r # rs') s = sigchld_handler rs' s2" for s2
  proof -
    from step [of rs] Cons.prems(2) have "sigchld_handler rs s2 = Faulted f s'" by simp
    from Cons.IH [OF posr this] obtain rs1 r' rs2 where f: "f = NullDeref"
      and d: "rs = rs1 @ r' # rs2" "sigchld_handler rs1 s2 = Returned s'"
        "\<exists>sg. rstatus r' = WStopped sg \<or> rstatus r' = WSignaled sg"
        "getjobpid (jobs s') (rpid r') = None"
      by blast
    from step [of rs1] d
    have "r # rs = (r # rs1) @ r' # rs2 \<and> sigchld_handler (r # rs1) s = Returned s'" by simp
    with f d(3,4) show ?thesis by blast
  qed
  show ?case
  proof (cases "rstatus r")
    case (WStopped sg)
    show ?thesis
    proof (cases "getjobpid (jobs s) (rpid r)")
      case None
      with WStopped show ?thesis by (intro here) auto
    next
      case (Some i)
      with WStopped pos Cons.prems(2) have w: "wr_ok r" by (auto simp: Let_def split: if_splits)
      with WStopped Some pos show ?thesis by (intro later) (simp add: Let_def)
    qed
  next
    case (WSignaled sg)
    show ?thesis
    proof (cases "getjobpid (jobs s) (rpid r)")
      case None
      with WSignaled show ?thesis by (intro here) auto
    next
      case (Some i)
      with WSignaled pos Cons.prems(2) have w: "wr_ok r" by (auto simp: Let_def split: if_splits)
      with WSignaled Some pos show ?thesis by (intro later) (simp add: Let_def)
    qed
  next
    case (WExited c)
    with pos show ?thesis by (intro later) simp
  qed
qed

text \<open>
  Claim C9. Let every pid that \<^verbatim>\<open>waitpid\<close> returns be positive. \<^verbatim>\<open>sigchld_handler\<close>
  reads through a \<^verbatim>\<open>NULL\<close> pointer exactly when it comes to a status change
  \<^verbatim>\<open>WIFSTOPPED\<close> or \<^verbatim>\<open>WIFSIGNALED\<close> whose pid \<^verbatim>\<open>getjobpid\<close> does not find in the
  table as it is at that moment (after the changes before it have been handled); no other
  fault occurs. So the handler is safe exactly under the precondition that each such pid is
  registered when it is reaped.
\<close>

theorem sigchld_handler_faults_iff_unregistered:
  assumes "\<forall>r\<in>set rs. 0 < rpid r"
  shows "((\<exists>f s'. sigchld_handler rs s = Faulted f s') \<longleftrightarrow>
          (\<exists>rs1 r rs2 s1. rs = rs1 @ r # rs2 \<and> sigchld_handler rs1 s = Returned s1 \<and>
             (\<exists>sg. rstatus r = WStopped sg \<or> rstatus r = WSignaled sg) \<and>
             getjobpid (jobs s1) (rpid r) = None)) \<and>
         (\<forall>f s'. sigchld_handler rs s = Faulted f s' \<longrightarrow> f = NullDeref)"
proof (intro conjI iffI allI impI)
  assume "\<exists>f s'. sigchld_handler rs s = Faulted f s'"
  then obtain f s' where "sigchld_handler rs s = Faulted f s'" by blast
  from sigchld_handler_Faulted [OF assms this]
  show "\<exists>rs1 r rs2 s1. rs = rs1 @ r # rs2 \<and> sigchld_handler rs1 s = Returned s1 \<and>
             (\<exists>sg. rstatus r = WStopped sg \<or> rstatus r = WSignaled sg) \<and>
             getjobpid (jobs s1) (rpid r) = None"
    by blast
next
  assume "\<exists>rs1 r rs2 s1. rs = rs1 @ r # rs2 \<and> sigchld_handler rs1 s = Returned s1 \<and>
             (\<exists>sg. rstatus r = WStopped sg \<or> rstatus r = WSignaled sg) \<and>
             getjobpid (jobs s1) (rpid r) = None"
  then obtain rs1 r rs2 s1 sg where d: "rs = rs1 @ r # rs2" "sigchld_handler rs1 s = Returned s1"
    "rstatus r = WStopped sg \<or> rstatus r = WSignaled sg" "getjobpid (jobs s1) (rpid r) = None"
    by blast
  from d(1) assms have p1: "\<forall>r\<in>set rs1. 0 < rpid r" and p: "0 < rpid r" by auto
  from sigchld_handler_append [OF p1, of "r # rs2" s] d(1,2)
  have "sigchld_handler rs s = sigchld_handler (r # rs2) s1" by simp
  also have "\<dots> = Faulted NullDeref s1" using p d(4,3) by (rule sigchld_handler_head_fault)
  finally show "\<exists>f s'. sigchld_handler rs s = Faulted f s'" by blast
next
  fix f s'
  assume "sigchld_handler rs s = Faulted f s'"
  from sigchld_handler_Faulted [OF assms this] show "f = NullDeref" by blast
qed

theorem sigchld_handler_faults_iff_unregistered_witness:
  "sigchld_handler stray_stop demo_shell =
     Faulted NullDeref (demo_shell\<lparr>jobs := demo_jobs[0 := free_slot]\<rparr>) \<and>
   (\<exists>rs1 r rs2 s1. stray_stop = rs1 @ r # rs2 \<and> sigchld_handler rs1 demo_shell = Returned s1 \<and>
      (\<exists>sg. rstatus r = WStopped sg \<or> rstatus r = WSignaled sg) \<and>
      getjobpid (jobs s1) (rpid r) = None)"
proof -
  have a: "\<forall>r\<in>set stray_stop. 0 < rpid r" by code_simp
  have b: "sigchld_handler stray_stop demo_shell =
      Faulted NullDeref (demo_shell\<lparr>jobs := demo_jobs[0 := free_slot]\<rparr>)"
    by code_simp
  from sigchld_handler_faults_iff_unregistered [OF a, of demo_shell] b
  have "\<exists>rs1 r rs2 s1. stray_stop = rs1 @ r # rs2 \<and> sigchld_handler rs1 demo_shell = Returned s1 \<and>
             (\<exists>sg. rstatus r = WStopped sg \<or> rstatus r = WSignaled sg) \<and>
             getjobpid (jobs s1) (rpid r) = None"
    by blast
  with b show ?thesis by simp
qed

lemma digits_chars: "set (digits n) \<subseteq> set ''0123456789''"
proof (induction n rule: digits.induct)
  case (1 n)
  show ?case
  proof (cases "n < 10")
    case True
    then have "''0123456789'' ! n \<in> set ''0123456789''" by (intro nth_mem) simp
    with True show ?thesis by (subst digits.simps) simp
  next
    case False
    have "n mod 10 < 10" by simp
    then have "''0123456789'' ! (n mod 10) \<in> set ''0123456789''" by (intro nth_mem) simp
    with False "1.IH" show ?thesis by (subst digits.simps) simp
  qed
qed

lemma show_int_no_newline: "CHR 0x0A \<notin> set (show_int i)"
  using digits_chars [of "nat i"] digits_chars [of "nat (- i)"]
  by (auto simp: show_int_def)

lemma one_line_snoc: "CHR 0x0A \<notin> set xs \<Longrightarrow> one_line (xs @ ''\<newline>'')"
  by (simp add: one_line_def)

lemma stop_notice_one_line: "one_line (stop_notice j sg)"
proof -
  have eq: "stop_notice j sg = (''Job ['' @ show_int (jid j) @ ''] ('' @ show_int (pid j)
      @ '') stopped by signal '' @ show_int sg) @ ''\<newline>''"
    by (simp add: stop_notice_def)
  have nn: "CHR 0x0A \<notin> set (''Job ['' @ show_int (jid j) @ ''] ('' @ show_int (pid j)
      @ '') stopped by signal '' @ show_int sg)"
    using show_int_no_newline by simp
  show ?thesis unfolding eq using nn by (rule one_line_snoc)
qed

lemma term_notice_one_line: "one_line (term_notice j sg)"
proof -
  have eq: "term_notice j sg = (''Job ['' @ show_int (jid j) @ ''] ('' @ show_int (pid j)
      @ '') terminated by signal '' @ show_int sg) @ ''\<newline>''"
    by (simp add: term_notice_def)
  have nn: "CHR 0x0A \<notin> set (''Job ['' @ show_int (jid j) @ ''] ('' @ show_int (pid j)
      @ '') terminated by signal '' @ show_int sg)"
    using show_int_no_newline by simp
  show ?thesis unfolding eq using nn by (rule one_line_snoc)
qed

lemma notice_of_one_line: "e \<in> set (notice_of js r) \<Longrightarrow> \<exists>str. e = Write str \<and> one_line str"
proof (cases "getjobpid js (rpid r)")
  case None
  assume "e \<in> set (notice_of js r)"
  with None show ?thesis by (simp add: notice_of_def)
next
  case (Some i)
  assume e: "e \<in> set (notice_of js r)"
  show ?thesis
  proof (cases "rstatus r")
    case (WStopped sg)
    with Some e have "e = Write (stop_notice (js ! i) sg)" by (simp add: notice_of_def)
    with stop_notice_one_line show ?thesis by blast
  next
    case (WSignaled sg)
    with Some e have "e = Write (term_notice (js ! i) sg)" by (simp add: notice_of_def)
    with term_notice_one_line show ?thesis by blast
  next
    case (WExited c)
    with Some e show ?thesis by (simp add: notice_of_def)
  qed
qed

lemma notice_fields [simp]:
  "stop_notice (j\<lparr>state := st\<rparr>) sg = stop_notice j sg"
  by (simp add: stop_notice_def)

lemma deletejob_snd:
  "0 < q \<Longrightarrow> snd (deletejob js q) =
     (case getjobpid js q of None \<Rightarrow> js | Some i \<Rightarrow> js[i := clearjob (js ! i)])"
  by (auto simp: deletejob_def getjobpid_def split: option.splits)

lemma getjobpid_Some: "getjobpid js q = Some i \<Longrightarrow> i < length js \<and> pid (js ! i) = q \<and> 1 \<le> q"
  by (auto simp: getjobpid_def split: if_splits dest: first_idx_Some)

lemma sigchld_handler_step:
  assumes "0 < rpid r" "wr_ok r"
    and "(\<exists>c. rstatus r = WExited c) \<or> getjobpid (jobs s) (rpid r) \<noteq> None"
  shows "sigchld_handler (r # rs) s = sigchld_handler rs (reap_one r s)"
proof (cases "rstatus r")
  case (WStopped sg)
  with assms(3) obtain i where i: "getjobpid (jobs s) (rpid r) = Some i" by auto
  from getjobpid_Some [OF i] have il: "i < length (jobs s)" by simp
  have "emit (Write (stop_notice (jobs (set_state i ST s) ! i) sg)) (set_state i ST s) = reap_one r s"
    using WStopped i il by (simp add: reap_one_def notice_of_def after_status_def emit_def set_state_def)
  with WStopped i assms(1,2) show ?thesis by (simp add: Let_def)
next
  case (WSignaled sg)
  with assms(3) obtain i where i: "getjobpid (jobs s) (rpid r) = Some i" by auto
  have "(emit (Write (term_notice (jobs s ! i) sg)) s)\<lparr>jobs := snd (deletejob (jobs s) (rpid r))\<rparr> = reap_one r s"
    using WSignaled i assms(1)
    by (simp add: reap_one_def notice_of_def after_status_def emit_def deletejob_snd)
  with WSignaled i assms(1,2) show ?thesis by simp
next
  case (WExited c)
  have "s\<lparr>jobs := snd (deletejob (jobs s) (rpid r))\<rparr> = reap_one r s"
    using WExited assms(1)
    by (cases "getjobpid (jobs s) (rpid r)")
      (simp_all add: reap_one_def notice_of_def after_status_def deletejob_snd)
  with WExited assms(1) show ?thesis by simp
qed

lemma first_idx_update_miss:
  "\<not> P y \<Longrightarrow> (i < length xs \<Longrightarrow> \<not> P (xs ! i)) \<Longrightarrow> first_idx P (xs[i := y]) = first_idx P xs"
proof (induction xs arbitrary: i)
  case Nil
  then show ?case by simp
next
  case (Cons x xs)
  show ?case
  proof (cases i)
    case 0
    with Cons.prems show ?thesis by simp
  next
    case (Suc k)
    have "first_idx P (xs[k := y]) = first_idx P xs"
      using Cons.prems Suc by (intro Cons.IH) auto
    with Suc show ?thesis by simp
  qed
qed

lemma after_status_pid: "pid (after_status st j) = pid j \<or> pid (after_status st j) = 0"
  by (cases st) (simp_all add: after_status_def)

lemma reap_one_fields [simp]:
  "length (jobs (reap_one r s)) = length (jobs s)"
  "trace (reap_one r s) = trace s @ notice_of (jobs s) r"
  by (simp_all add: reap_one_def split: option.splits)

lemma reap_one_nth_hit:
  "getjobpid (jobs s) (rpid r) = Some i \<Longrightarrow>
     jobs (reap_one r s) ! i = after_status (rstatus r) (jobs s ! i)"
  by (auto simp: reap_one_def dest: getjobpid_Some)

lemma reap_one_nth_miss:
  "getjobpid (jobs s) (rpid r) \<noteq> Some k \<Longrightarrow> jobs (reap_one r s) ! k = jobs s ! k"
  by (auto simp: reap_one_def split: option.splits)

lemma getjobpid_reap_other:
  assumes "q \<noteq> rpid r"
  shows "getjobpid (jobs (reap_one r s)) q = getjobpid (jobs s) q"
proof (cases "getjobpid (jobs s) (rpid r)")
  case None
  then show ?thesis by (simp add: reap_one_def)
next
  case (Some i)
  let ?y = "after_status (rstatus r) (jobs s ! i)"
  from getjobpid_Some [OF Some] have pi: "pid (jobs s ! i) = rpid r" by simp
  show ?thesis
  proof (cases "q < 1")
    case True
    then show ?thesis by (simp add: getjobpid_def)
  next
    case False
    with after_status_pid [of "rstatus r" "jobs s ! i"] pi assms have "pid ?y \<noteq> q" by auto
    moreover from pi assms have "pid (jobs s ! i) \<noteq> q" by simp
    ultimately have "first_idx (\<lambda>j. pid j = q) ((jobs s)[i := ?y]) = first_idx (\<lambda>j. pid j = q) (jobs s)"
      by (intro first_idx_update_miss) auto
    with Some False show ?thesis by (simp add: getjobpid_def reap_one_def)
  qed
qed

lemma notice_of_reap_other:
  assumes "rpid r' \<noteq> rpid r"
  shows "notice_of (jobs (reap_one r s)) r' = notice_of (jobs s) r'"
proof (cases "getjobpid (jobs s) (rpid r')")
  case None
  with getjobpid_reap_other [OF assms, of s] show ?thesis by (simp add: notice_of_def)
next
  case (Some k)
  have "getjobpid (jobs s) (rpid r) \<noteq> Some k"
  proof
    assume "getjobpid (jobs s) (rpid r) = Some k"
    from getjobpid_Some [OF this] getjobpid_Some [OF Some] assms show False by simp
  qed
  then have "jobs (reap_one r s) ! k = jobs s ! k" by (rule reap_one_nth_miss)
  with Some getjobpid_reap_other [OF assms, of s] show ?thesis
    by (simp add: notice_of_def split: wstatus.splits)
qed

lemma sigchld_handler_drain:
  assumes "\<forall>r\<in>set rs. 0 < rpid r \<and> wr_ok r"
    and "\<forall>r\<in>set rs. (\<exists>c. rstatus r = WExited c) \<or> getjobpid (jobs s) (rpid r) \<noteq> None"
    and "distinct (map rpid rs)"
  shows "\<exists>s'. sigchld_handler rs s = Returned s' \<and>
           trace s' = trace s @ concat (map (notice_of (jobs s)) rs) \<and>
           length (jobs s') = length (jobs s) \<and>
           (\<forall>r\<in>set rs. \<forall>i. getjobpid (jobs s) (rpid r) = Some i \<longrightarrow>
              jobs s' ! i = after_status (rstatus r) (jobs s ! i)) \<and>
           (\<forall>i. (\<forall>r\<in>set rs. getjobpid (jobs s) (rpid r) \<noteq> Some i) \<longrightarrow> jobs s' ! i = jobs s ! i)"
  using assms
proof (induction rs arbitrary: s)
  case Nil
  then show ?case by simp
next
  case (Cons r rs)
  let ?s2 = "reap_one r s"
  from Cons.prems(1) have r12: "0 < rpid r" "wr_ok r"
    and pos: "\<forall>r\<in>set rs. 0 < rpid r \<and> wr_ok r" by simp_all
  from Cons.prems(2) have r3: "(\<exists>c. rstatus r = WExited c) \<or> getjobpid (jobs s) (rpid r) \<noteq> None"
    by simp
  note r = r12 r3
  from Cons.prems(3) have nin: "rpid r \<notin> rpid ` set rs" and d: "distinct (map rpid rs)" by simp_all
  have other: "\<forall>r'\<in>set rs. rpid r' \<noteq> rpid r"
  proof
    fix r' assume "r' \<in> set rs"
    then have "rpid r' \<in> rpid ` set rs" by (rule imageI)
    with nin show "rpid r' \<noteq> rpid r" by auto
  qed
  have same: "getjobpid (jobs ?s2) (rpid r') = getjobpid (jobs s) (rpid r')" if "r' \<in> set rs" for r'
    using that other by (intro getjobpid_reap_other) auto
  have reg2: "\<forall>r'\<in>set rs. (\<exists>c. rstatus r' = WExited c) \<or> getjobpid (jobs ?s2) (rpid r') \<noteq> None"
    using Cons.prems(2) same by auto
  from Cons.IH [OF pos reg2 d] obtain s' where
    ret: "sigchld_handler rs ?s2 = Returned s'"
    and tr: "trace s' = trace ?s2 @ concat (map (notice_of (jobs ?s2)) rs)"
    and len: "length (jobs s') = length (jobs ?s2)"
    and hit: "\<forall>r'\<in>set rs. \<forall>i. getjobpid (jobs ?s2) (rpid r') = Some i \<longrightarrow>
              jobs s' ! i = after_status (rstatus r') (jobs ?s2 ! i)"
    and miss: "\<forall>i. (\<forall>r'\<in>set rs. getjobpid (jobs ?s2) (rpid r') \<noteq> Some i) \<longrightarrow> jobs s' ! i = jobs ?s2 ! i"
    by blast
  have step: "sigchld_handler (r # rs) s = Returned s'"
    using sigchld_handler_step [OF r] ret by simp
  have "map (notice_of (jobs ?s2)) rs = map (notice_of (jobs s)) rs"
    using other by (intro map_cong refl notice_of_reap_other) auto
  with tr have tr': "trace s' = trace s @ concat (map (notice_of (jobs s)) (r # rs))" by simp
  have differ: "getjobpid (jobs s) (rpid r) \<noteq> Some i"
    if "r' \<in> set rs" "getjobpid (jobs s) (rpid r') = Some i" for r' i
  proof
    assume "getjobpid (jobs s) (rpid r) = Some i"
    from getjobpid_Some [OF this] getjobpid_Some [OF that(2)] other that(1) show False by auto
  qed
  have hit': "jobs s' ! i = after_status (rstatus r') (jobs s ! i)"
    if "r' \<in> set (r # rs)" "getjobpid (jobs s) (rpid r') = Some i" for r' i
  proof (cases "r' \<in> set rs")
    case True
    with that(2) same have "getjobpid (jobs ?s2) (rpid r') = Some i" by simp
    with hit True have "jobs s' ! i = after_status (rstatus r') (jobs ?s2 ! i)" by blast
    moreover have "jobs ?s2 ! i = jobs s ! i"
      using differ [OF True that(2)] by (rule reap_one_nth_miss)
    ultimately show ?thesis by simp
  next
    case False
    with that(1) have eq: "r' = r" by simp
    have "\<forall>r''\<in>set rs. getjobpid (jobs ?s2) (rpid r'') \<noteq> Some i"
      using same differ that(2) eq by metis
    with miss have "jobs s' ! i = jobs ?s2 ! i" by blast
    with that(2) eq show ?thesis by (simp add: reap_one_nth_hit)
  qed
  have miss': "jobs s' ! i = jobs s ! i"
    if "\<forall>r'\<in>set (r # rs). getjobpid (jobs s) (rpid r') \<noteq> Some i" for i
  proof -
    from that same have "\<forall>r'\<in>set rs. getjobpid (jobs ?s2) (rpid r') \<noteq> Some i" by simp
    with miss have "jobs s' ! i = jobs ?s2 ! i" by blast
    moreover from that have "jobs ?s2 ! i = jobs s ! i" by (intro reap_one_nth_miss) simp
    ultimately show ?thesis by simp
  qed
  from step tr' len hit' miss' show ?case by auto
qed

text \<open>
  Claim C4. Let the ready status changes be of different children, each with a positive
  pid, let every stopped or signal-terminated child have a job in the table, and let the
  \<^verbatim>\<open>write\<close> calls succeed. Then one run of \<^verbatim>\<open>sigchld_handler\<close> handles all of
  them and returns (every \<^verbatim>\<open>waitpid\<close> call has \<^verbatim>\<open>WNOHANG\<close>). It writes, in order, one
  notice for each stopped and each signal-terminated child and nothing for a child that
  exited (\<open>notice_of\<close>); each notice is one line. In the table the job of a stopped
  child has state \<^verbatim>\<open>ST\<close>, the slot of a terminated or exited child is cleared
  (\<open>after_status\<close>), and every other slot is as before.
\<close>

theorem sigchld_handler_drains_all_changes:
  assumes "\<forall>r\<in>set rs. 0 < rpid r \<and> wr_ok r"
    and "\<forall>r\<in>set rs. (\<exists>c. rstatus r = WExited c) \<or> getjobpid (jobs s) (rpid r) \<noteq> None"
    and "distinct (map rpid rs)"
  shows "\<exists>s'. sigchld_handler rs s = Returned s' \<and>
           trace s' = trace s @ concat (map (notice_of (jobs s)) rs) \<and>
           (\<forall>e\<in>set (concat (map (notice_of (jobs s)) rs)). \<exists>str. e = Write str \<and> one_line str) \<and>
           length (jobs s') = length (jobs s) \<and>
           (\<forall>r\<in>set rs. \<forall>i. getjobpid (jobs s) (rpid r) = Some i \<longrightarrow>
              jobs s' ! i = after_status (rstatus r) (jobs s ! i)) \<and>
           (\<forall>i. (\<forall>r\<in>set rs. getjobpid (jobs s) (rpid r) \<noteq> Some i) \<longrightarrow> jobs s' ! i = jobs s ! i)"
proof -
  have "\<forall>e\<in>set (concat (map (notice_of (jobs s)) rs)). \<exists>str. e = Write str \<and> one_line str"
    by (auto dest: notice_of_one_line)
  with sigchld_handler_drain [OF assms] show ?thesis by blast
qed

theorem sigchld_handler_drains_all_changes_witness:
  "sigchld_handler three_changes demo_shell =
     Returned (demo_shell
       \<lparr>jobs := demo_jobs[0 := \<lparr>pid = 100, jid = 1, state = ST, cmdline = ''sleep 5 &\<newline>''\<rparr>,
                          3 := free_slot, 1 := free_slot],
        trace := [Write ''Job [1] (100) stopped by signal 19\<newline>'',
                  Write ''Job [4] (103) terminated by signal 9\<newline>'']\<rparr>) \<and>
   (\<exists>s'. sigchld_handler three_changes demo_shell = Returned s' \<and>
      trace s' = trace demo_shell @ concat (map (notice_of (jobs demo_shell)) three_changes) \<and>
      (\<forall>e\<in>set (concat (map (notice_of (jobs demo_shell)) three_changes)).
          \<exists>str. e = Write str \<and> one_line str) \<and>
      length (jobs s') = length (jobs demo_shell) \<and>
      (\<forall>r\<in>set three_changes. \<forall>i. getjobpid (jobs demo_shell) (rpid r) = Some i \<longrightarrow>
          jobs s' ! i = after_status (rstatus r) (jobs demo_shell ! i)) \<and>
      (\<forall>i. (\<forall>r\<in>set three_changes. getjobpid (jobs demo_shell) (rpid r) \<noteq> Some i) \<longrightarrow>
          jobs s' ! i = jobs demo_shell ! i))"
proof -
  have a: "\<forall>r\<in>set three_changes. 0 < rpid r \<and> wr_ok r" by code_simp
  have b: "\<forall>r\<in>set three_changes. (\<exists>c. rstatus r = WExited c) \<or> getjobpid (jobs demo_shell) (rpid r) \<noteq> None"
  proof -
    have "list_all (\<lambda>r. getjobpid (jobs demo_shell) (rpid r) \<noteq> None) three_changes" by code_simp
    then show ?thesis by (simp add: list_all_iff)
  qed
  have c: "distinct (map rpid three_changes)" by code_simp
  have run: "sigchld_handler three_changes demo_shell =
     Returned (demo_shell
       \<lparr>jobs := demo_jobs[0 := \<lparr>pid = 100, jid = 1, state = ST, cmdline = ''sleep 5 &\<newline>''\<rparr>,
                          3 := free_slot, 1 := free_slot],
        trace := [Write ''Job [1] (100) stopped by signal 19\<newline>'',
                  Write ''Job [4] (103) terminated by signal 9\<newline>'']\<rparr>)"
    by code_simp
  from sigchld_handler_drains_all_changes [OF a b c] run show ?thesis by blast
qed


section \<open>Signals at the points of the main program\<close>


lemma emit_pending [simp]: "pending (emit e s) = pending s"
  by (simp add: emit_def)

lemma set_state_pending [simp]: "pending (set_state i st s) = pending s"
  by (simp add: set_state_def)

lemma andthen_simps [simp]:
  "andthen (Returned s) f = f s" "andthen (Exited c s) f = Exited c s"
  "andthen (Faulted x s) f = Faulted x s" "andthen (Blocked s) f = Blocked s"
  "andthen (Execed s) f = Execed s"
  by (simp_all add: andthen_def)

lemma andthen_Returned:
  "andthen out f = Returned s' \<longleftrightarrow> (\<exists>s1. out = Returned s1 \<and> f s1 = Returned s')"
  by (cases out) simp_all

lemma andthen_Blocked:
  "andthen out f = Blocked s' \<longleftrightarrow> out = Blocked s' \<or> (\<exists>s1. out = Returned s1 \<and> f s1 = Blocked s')"
  by (cases out) auto

lemma sigchld_handler_frame:
  "sigmask (state_of (sigchld_handler rs s)) = sigmask s \<and>
   pending (state_of (sigchld_handler rs s)) = pending s \<and>
   verbose (state_of (sigchld_handler rs s)) = verbose s"
  by (induction rs arbitrary: s) (auto simp: Let_def split: wstatus.splits option.splits)

lemma deliver_frame:
  "sigmask (state_of (deliver e s)) = sigmask s \<and> pending (state_of (deliver e s)) = pending s \<and>
   verbose (state_of (deliver e s)) = verbose s"
  by (cases e) (auto simp: sigchld_handler_frame sigint_handler_def sigtstp_handler_def
      sigquit_handler_def sigusr1_handler_def Let_def split: option.splits)

lemma deliver_not_Execed: "deliver e s \<noteq> Execed s'"
  by (cases e) (auto simp: sigint_handler_def sigtstp_handler_def sigquit_handler_def
      sigusr1_handler_def sigchld_handler_not_Execed Let_def split: option.splits)

lemma sig_of_hold: "sig_of ` set (hold e ps) = insert (sig_of e) (sig_of ` set ps)"
  by (induction ps) (auto split: sig_event.splits)

lemma list_all_hold:
  "list_all (\<lambda>d. sig_of d \<in> m) (hold e ps) \<longleftrightarrow> sig_of e \<in> m \<and> list_all (\<lambda>d. sig_of d \<in> m) ps"
proof -
  have "list_all (\<lambda>d. sig_of d \<in> m) xs \<longleftrightarrow> sig_of ` set xs \<subseteq> m" for xs
    by (auto simp: list_all_iff)
  then show ?thesis by (simp add: sig_of_hold)
qed

lemma arrive_frame:
  "sigmask (state_of (arrive es s)) = sigmask s \<and> verbose (state_of (arrive es s)) = verbose s"
proof (induction es arbitrary: s)
  case Nil
  then show ?case by simp
next
  case (Cons e es)
  show ?case
  proof (cases "sig_of e \<in> sigmask s")
    case True
    with Cons.IH [of "s\<lparr>pending := hold e (pending s)\<rparr>"] show ?thesis by simp
  next
    case False
    from deliver_frame [of e s] Cons.IH [of "state_of (deliver e s)"] False
    show ?thesis by (cases "deliver e s") simp_all
  qed
qed

lemma arrive_calmer: "calmer (jobs s) (jobs (state_of (arrive es s)))"
proof (induction es arbitrary: s)
  case Nil
  then show ?case by simp
next
  case (Cons e es)
  show ?case
  proof (cases "sig_of e \<in> sigmask s")
    case True
    with Cons.IH [of "s\<lparr>pending := hold e (pending s)\<rparr>"] show ?thesis by simp
  next
    case False
    have a: "calmer (jobs s) (jobs (state_of (deliver e s)))" by (rule deliver_calmer)
    show ?thesis
    proof (cases "deliver e s")
      case (Returned s1)
      with a Cons.IH [of s1] False show ?thesis by (auto intro: calmer_trans)
    qed (use a False in simp_all)
  qed
qed

lemma arrive_settled: "settled s \<Longrightarrow> settled (state_of (arrive es s))"
proof (induction es arbitrary: s)
  case Nil
  then show ?case by simp
next
  case (Cons e es)
  show ?case
  proof (cases "sig_of e \<in> sigmask s")
    case True
    with Cons.prems have "settled (s\<lparr>pending := hold e (pending s)\<rparr>)"
      by (simp add: settled_def list_all_hold)
    from Cons.IH [OF this] True show ?thesis by simp
  next
    case False
    from deliver_frame [of e s] Cons.prems have a: "settled (state_of (deliver e s))"
      by (simp add: settled_def)
    show ?thesis
    proof (cases "deliver e s")
      case (Returned s1)
      with a Cons.IH [of s1] False show ?thesis by simp
    qed (use a False in simp_all)
  qed
qed

lemma arrive_not_Blocked: "arrive es s \<noteq> Blocked s'"
proof (induction es arbitrary: s)
  case Nil
  then show ?case by simp
next
  case (Cons e es)
  then show ?case using deliver_not_Blocked [of e s]
    by (cases "deliver e s") auto
qed

lemma arrive_not_Execed: "arrive es s \<noteq> Execed s'"
proof (induction es arbitrary: s)
  case Nil
  then show ?case by simp
next
  case (Cons e es)
  then show ?case using deliver_not_Execed [of e s]
    by (cases "deliver e s") auto
qed

lemma arrive_blocked:
  "list_all (\<lambda>e. sig_of e \<in> sigmask s) es \<Longrightarrow>
     arrive es s = Returned (s\<lparr>pending := fold hold es (pending s)\<rparr>)"
  by (induction es arbitrary: s) simp_all

lemma sleep_blocked:
  "list_all (\<lambda>e. sig_of e \<in> sigmask s) es \<Longrightarrow>
     sleep es s = (Blocked (s\<lparr>pending := fold hold es (pending s)\<rparr>), [])"
  by (induction es arbitrary: s) simp_all

lemma sleep_Blocked:
  "sleep es s = (Blocked s', rest) \<Longrightarrow>
     list_all (\<lambda>e. sig_of e \<in> sigmask s) es \<and> s' = s\<lparr>pending := fold hold es (pending s)\<rparr>"
proof (induction es arbitrary: s)
  case Nil
  then show ?case by simp
next
  case (Cons e es)
  show ?case
  proof (cases "sig_of e \<in> sigmask s")
    case True
    with Cons.prems have "sleep es (s\<lparr>pending := hold e (pending s)\<rparr>) = (Blocked s', rest)" by simp
    from Cons.IH [OF this] True show ?thesis by simp
  next
    case False
    with Cons.prems deliver_not_Blocked [of e s s'] show ?thesis by simp
  qed
qed

lemma sleep_Returned:
  "sleep es s = (Returned s', rest) \<Longrightarrow> list_ex (\<lambda>e. sig_of e \<notin> sigmask s) es"
proof (induction es arbitrary: s)
  case Nil
  then show ?case by simp
next
  case (Cons e es)
  show ?case
  proof (cases "sig_of e \<in> sigmask s")
    case True
    with Cons.prems have "sleep es (s\<lparr>pending := hold e (pending s)\<rparr>) = (Returned s', rest)" by simp
    from Cons.IH [OF this] show ?thesis by simp
  next
    case False
    then show ?thesis by simp
  qed
qed

lemma sleep_frame:
  "sigmask (state_of (fst (sleep es s))) = sigmask s \<and>
   calmer (jobs s) (jobs (state_of (fst (sleep es s))))"
proof (induction es arbitrary: s)
  case Nil
  then show ?case by simp
next
  case (Cons e es)
  show ?case
  proof (cases "sig_of e \<in> sigmask s")
    case True
    with Cons.IH [of "s\<lparr>pending := hold e (pending s)\<rparr>"] show ?thesis by simp
  next
    case False
    with deliver_frame [of e s] deliver_calmer [of s e] show ?thesis by simp
  qed
qed

lemma sleep_not_Execed: "fst (sleep es s) \<noteq> Execed s'"
proof (induction es arbitrary: s)
  case Nil
  then show ?case by simp
next
  case (Cons e es)
  then show ?case using deliver_not_Execed [of e s s'] by simp
qed

lemma setmask_frame:
  "sigmask (state_of (setmask m s)) = m \<and> calmer (jobs s) (jobs (state_of (setmask m s))) \<and>
   settled (state_of (setmask m s)) \<and> verbose (state_of (setmask m s)) = verbose s"
proof -
  let ?s = "s\<lparr>sigmask := m, pending := []\<rparr>"
  have "settled ?s" by (simp add: settled_def)
  from arrive_settled [OF this, of "pending s"] arrive_frame [of "pending s" ?s]
    arrive_calmer [of ?s "pending s"]
  show ?thesis by (simp add: setmask_def)
qed

lemma setmask_not_Blocked: "setmask m s \<noteq> Blocked s'"
  by (simp add: setmask_def arrive_not_Blocked)

lemma setmask_none: "pending s = [] \<Longrightarrow> setmask m s = Returned (s\<lparr>sigmask := m\<rparr>)"
  by (simp add: setmask_def)

lemma sigsuspend_asleep:
  assumes "list_all (\<lambda>e. sig_of e \<in> m) (pending s)" "list_all (\<lambda>e. sig_of e \<in> m) late"
  shows "sigsuspend m late s =
           Blocked ((emit (Sigsuspend m) s)\<lparr>sigmask := m, pending := fold hold late (pending s)\<rparr>)"
proof -
  let ?s1 = "(emit (Sigsuspend m) s)\<lparr>sigmask := m\<rparr>"
  from assms(1) have nd: "\<not> list_ex (\<lambda>e. sig_of e \<notin> m) (pending s)"
    by (auto simp: list_all_iff list_ex_iff)
  from assms(2) have "sleep late ?s1 = (Blocked (?s1\<lparr>pending := fold hold late (pending ?s1)\<rparr>), [])"
    by (intro sleep_blocked) simp
  with nd show ?thesis by (simp add: sigsuspend_def Let_def)
qed

lemma sigsuspend_due:
  "list_ex (\<lambda>e. sig_of e \<notin> m) (pending s) \<Longrightarrow>
     sigsuspend m late s =
       andthen (arrive (pending s) ((emit (Sigsuspend m) s)\<lparr>sigmask := m, pending := []\<rparr>))
         (\<lambda>s2. arrive late (s2\<lparr>sigmask := sigmask s\<rparr>))"
  by (simp add: sigsuspend_def Let_def)

lemma sigsuspend_sleep:
  "\<not> list_ex (\<lambda>e. sig_of e \<notin> m) (pending s) \<Longrightarrow>
     sigsuspend m late s =
       (case sleep late ((emit (Sigsuspend m) s)\<lparr>sigmask := m\<rparr>) of
          (Returned s2, rest) \<Rightarrow> arrive rest (s2\<lparr>sigmask := sigmask s\<rparr>)
        | (out, rest) \<Rightarrow> out)"
  by (simp add: sigsuspend_def Let_def)

lemma sigsuspend_calmer: "calmer (jobs s) (jobs (state_of (sigsuspend m late s)))"
proof (cases "list_ex (\<lambda>e. sig_of e \<notin> m) (pending s)")
  case True
  let ?s1 = "(emit (Sigsuspend m) s)\<lparr>sigmask := m, pending := []\<rparr>"
  have a: "calmer (jobs s) (jobs (state_of (arrive (pending s) ?s1)))"
    using arrive_calmer [of ?s1 "pending s"] by simp
  show ?thesis
  proof (cases "arrive (pending s) ?s1")
    case (Returned s2)
    have "calmer (jobs s2) (jobs (state_of (arrive late (s2\<lparr>sigmask := sigmask s\<rparr>))))"
      using arrive_calmer [of "s2\<lparr>sigmask := sigmask s\<rparr>" late] by simp
    with a Returned have "calmer (jobs s) (jobs (state_of (arrive late (s2\<lparr>sigmask := sigmask s\<rparr>))))"
      by (auto intro: calmer_trans)
    with True Returned show ?thesis by (simp add: sigsuspend_due)
  qed (use a True in \<open>simp_all add: sigsuspend_due\<close>)
next
  case False
  let ?s1 = "(emit (Sigsuspend m) s)\<lparr>sigmask := m\<rparr>"
  obtain out rest where sl: "sleep late ?s1 = (out, rest)" by (cases "sleep late ?s1")
  from sleep_frame [of late ?s1] sl have a: "calmer (jobs s) (jobs (state_of out))" by simp
  show ?thesis
  proof (cases out)
    case (Returned s2)
    have "calmer (jobs s2) (jobs (state_of (arrive rest (s2\<lparr>sigmask := sigmask s\<rparr>))))"
      using arrive_calmer [of "s2\<lparr>sigmask := sigmask s\<rparr>" rest] by simp
    with a Returned have "calmer (jobs s) (jobs (state_of (arrive rest (s2\<lparr>sigmask := sigmask s\<rparr>))))"
      by (auto intro: calmer_trans)
    with False sl Returned show ?thesis by (simp add: sigsuspend_sleep)
  qed (use a False sl in \<open>simp_all add: sigsuspend_sleep\<close>)
qed

lemma sigsuspend_Returned_mask:
  assumes "sigsuspend m late s = Returned s'"
  shows "sigmask s' = sigmask s"
proof (cases "list_ex (\<lambda>e. sig_of e \<notin> m) (pending s)")
  case True
  let ?s1 = "(emit (Sigsuspend m) s)\<lparr>sigmask := m, pending := []\<rparr>"
  from assms True obtain s2 where "arrive late (s2\<lparr>sigmask := sigmask s\<rparr>) = Returned s'"
    by (auto simp: sigsuspend_due andthen_Returned)
  with arrive_frame [of late "s2\<lparr>sigmask := sigmask s\<rparr>"] show ?thesis by simp
next
  case False
  let ?s1 = "(emit (Sigsuspend m) s)\<lparr>sigmask := m\<rparr>"
  obtain out rest where sl: "sleep late ?s1 = (out, rest)" by (cases "sleep late ?s1")
  with assms False obtain s2 where "arrive rest (s2\<lparr>sigmask := sigmask s\<rparr>) = Returned s'"
    by (cases out) (simp_all add: sigsuspend_sleep)
  with arrive_frame [of rest "s2\<lparr>sigmask := sigmask s\<rparr>"] show ?thesis by simp
qed

lemma sigsuspend_Blocked:
  assumes "sigsuspend m late s = Blocked s'"
  shows "s' = (emit (Sigsuspend m) s)\<lparr>sigmask := m, pending := fold hold late (pending s)\<rparr> \<and>
         list_all (\<lambda>e. sig_of e \<in> m) (pending s @ late)"
proof (cases "list_ex (\<lambda>e. sig_of e \<notin> m) (pending s)")
  case True
  with assms show ?thesis
    by (auto simp: sigsuspend_due andthen_Blocked arrive_not_Blocked)
next
  case False
  let ?s1 = "(emit (Sigsuspend m) s)\<lparr>sigmask := m\<rparr>"
  obtain out rest where sl: "sleep late ?s1 = (out, rest)" by (cases "sleep late ?s1")
  have "out = Blocked s'"
  proof (cases out)
    case (Returned s2)
    with assms False sl show ?thesis by (simp add: sigsuspend_sleep arrive_not_Blocked)
  qed (use assms False sl in \<open>simp_all add: sigsuspend_sleep\<close>)
  with sl sleep_Blocked [of late ?s1 s' rest] False show ?thesis
    by (auto simp: list_all_iff list_ex_iff)
qed

lemma sigsuspend_not_Execed: "sigsuspend m late s \<noteq> Execed s'"
proof (cases "list_ex (\<lambda>e. sig_of e \<notin> m) (pending s)")
  case True
  let ?s1 = "(emit (Sigsuspend m) s)\<lparr>sigmask := m, pending := []\<rparr>"
  show ?thesis
    using True arrive_not_Execed
    by (cases "arrive (pending s) ?s1") (simp_all add: sigsuspend_due)
next
  case False
  let ?s1 = "(emit (Sigsuspend m) s)\<lparr>sigmask := m\<rparr>"
  obtain out rest where sl: "sleep late ?s1 = (out, rest)" by (cases "sleep late ?s1")
  with sleep_not_Execed [of late ?s1 s'] have "out \<noteq> Execed s'" by simp
  with False sl show ?thesis
    by (cases out) (simp_all add: sigsuspend_sleep arrive_not_Execed)
qed

lemma arrive_Nil_pending:
  assumes "arrive es (s\<lparr>pending := []\<rparr>) = Returned s'"
  shows "list_all (\<lambda>e. sig_of e \<in> sigmask s) (pending s')"
proof -
  have "settled (s\<lparr>pending := []\<rparr>)" by (simp add: settled_def)
  from arrive_settled [OF this, of es] arrive_frame [of es "s\<lparr>pending := []\<rparr>"] assms
  show ?thesis by (simp add: settled_def)
qed

lemma sigsuspend_Nil_Returned:
  assumes "sigsuspend m [] s = Returned s'"
  shows "list_all (\<lambda>e. sig_of e \<in> m) (pending s')"
proof (cases "list_ex (\<lambda>e. sig_of e \<notin> m) (pending s)")
  case True
  let ?s1 = "(emit (Sigsuspend m) s)\<lparr>sigmask := m\<rparr>"
  from assms True obtain s2 where s2: "arrive (pending s) (?s1\<lparr>pending := []\<rparr>) = Returned s2"
    and "s' = s2\<lparr>sigmask := sigmask s\<rparr>"
    by (auto simp: sigsuspend_due andthen_Returned)
  with arrive_Nil_pending [OF s2] show ?thesis by simp
next
  case False
  with assms show ?thesis by (simp add: sigsuspend_sleep)
qed

lemma batch_simps [simp]:
  "batch [] k = []" "batch (b # bs) 0 = b" "batch (b # bs) (Suc k) = batch bs k"
  by (simp_all add: batch_def)

lemma andthen_cong_Returned:
  "(\<And>s1. out = Returned s1 \<Longrightarrow> f s1 = g s1) \<Longrightarrow> andthen out f = andthen out g"
  by (cases out) simp_all

lemma wait_turn_Nil [simp]: "wait_turn prev [] late s = sigsuspend prev late s"
  by (simp add: wait_turn_def)

lemma wait_turn_calmer: "calmer (jobs s) (jobs (state_of (wait_turn prev early late s)))"
proof (cases "arrive early s")
  case (Returned s0)
  from arrive_calmer [of s early] Returned have "calmer (jobs s) (jobs s0)" by simp
  from calmer_trans [OF this sigsuspend_calmer [of s0 prev late]] Returned
  show ?thesis by (simp add: wait_turn_def)
qed (use arrive_calmer [of s early] in \<open>simp_all add: wait_turn_def\<close>)

lemma wait_turn_Returned_mask:
  assumes "wait_turn prev early late s = Returned s'"
  shows "sigmask s' = sigmask s"
proof -
  from assms obtain s0 where a: "arrive early s = Returned s0" and b: "sigsuspend prev late s0 = Returned s'"
    by (auto simp: wait_turn_def andthen_Returned)
  from arrive_frame [of early s] a have "sigmask s0 = sigmask s" by simp
  with sigsuspend_Returned_mask [OF b] show ?thesis by simp
qed

lemma sigsuspend_twice:
  assumes "sigsuspend prev [] s = Returned s1"
  shows "\<exists>b. sigsuspend prev [] s1 = Blocked b"
  using sigsuspend_asleep [OF sigsuspend_Nil_Returned [OF assms], of "[]"] by simp

text \<open>The loop as the program text has it, whatever is left of the list.\<close>

lemma waitfg_loop_unfold:
  "waitfg_loop p prev bs s =
     (if fgpid (jobs s) = p
      then andthen (wait_turn prev (batch bs 0) (batch bs 1) s) (waitfg_loop p prev (drop 2 bs))
      else Returned s)"
proof (cases bs)
  case Nil
  have "(if fgpid (jobs s1) = p then sigsuspend prev [] s1 else Returned s1) = waitfg_loop p prev [] s1"
    if "sigsuspend prev [] s = Returned s1" for s1
  proof -
    from sigsuspend_twice [OF that] obtain b where "sigsuspend prev [] s1 = Blocked b" ..
    then show ?thesis by simp
  qed
  then have "andthen (sigsuspend prev [] s)
        (\<lambda>s1. if fgpid (jobs s1) = p then sigsuspend prev [] s1 else Returned s1) =
      andthen (sigsuspend prev [] s) (waitfg_loop p prev [])"
    by (rule andthen_cong_Returned)
  with Nil show ?thesis by simp
next
  case (Cons early rest)
  then show ?thesis by (cases rest) simp_all
qed

lemma waitfg_loop_Returned:
  "waitfg_loop p prev bs s = Returned s' \<Longrightarrow> fgpid (jobs s') \<noteq> p \<and> sigmask s' = sigmask s"
proof (induction p prev bs s rule: waitfg_loop.induct)
  case (1 p prev s)
  show ?case
  proof (cases "fgpid (jobs s) = p")
    case False
    with "1.prems" show ?thesis by simp
  next
    case True
    with "1.prems" obtain s1 where a: "sigsuspend prev [] s = Returned s1"
      and b: "(if fgpid (jobs s1) = p then sigsuspend prev [] s1 else Returned s1) = Returned s'"
      by (auto simp: andthen_Returned)
    from sigsuspend_twice [OF a] b have "fgpid (jobs s1) \<noteq> p" "s' = s1" by (auto split: if_splits)
    with sigsuspend_Returned_mask [OF a] show ?thesis by simp
  qed
next
  case (2 p prev early bs s)
  show ?case
  proof (cases "fgpid (jobs s) = p")
    case False
    with "2.prems" show ?thesis by simp
  next
    case True
    with "2.prems" obtain s1 where a: "wait_turn prev early (batch bs 0) s = Returned s1"
      and b: "waitfg_loop p prev (drop 1 bs) s1 = Returned s'"
      by (auto simp: andthen_Returned)
    from "2.IH" [OF True b] wait_turn_Returned_mask [OF a] show ?thesis by simp
  qed
qed

lemma waitfg_loop_calmer: "calmer (jobs s) (jobs (state_of (waitfg_loop p prev bs s)))"
proof (induction p prev bs s rule: waitfg_loop.induct)
  case (1 p prev s)
  show ?case
  proof (cases "fgpid (jobs s) = p")
    case False
    then show ?thesis by simp
  next
    case True
    have a: "calmer (jobs s) (jobs (state_of (sigsuspend prev [] s)))" by (rule sigsuspend_calmer)
    show ?thesis
    proof (cases "sigsuspend prev [] s")
      case (Returned s1)
      have "calmer (jobs s1) (jobs (state_of (if fgpid (jobs s1) = p then sigsuspend prev [] s1 else Returned s1)))"
        by (simp add: sigsuspend_calmer)
      with a Returned True show ?thesis by (auto intro: calmer_trans)
    qed (use a True in simp_all)
  qed
next
  case (2 p prev early bs s)
  show ?case
  proof (cases "fgpid (jobs s) = p")
    case False
    then show ?thesis by simp
  next
    case True
    have a: "calmer (jobs s) (jobs (state_of (wait_turn prev early (batch bs 0) s)))"
      by (rule wait_turn_calmer)
    show ?thesis
    proof (cases "wait_turn prev early (batch bs 0) s")
      case (Returned s1)
      with a "2.IH" [OF True, of s1] True show ?thesis by (auto intro: calmer_trans)
    qed (use a True in simp_all)
  qed
qed

lemma filter_le_one_unique:
  "length (filter P xs) \<le> 1 \<Longrightarrow> i < length xs \<Longrightarrow> j < length xs \<Longrightarrow> P (xs ! i) \<Longrightarrow> P (xs ! j) \<Longrightarrow> i = j"
proof (induction xs arbitrary: i j)
  case Nil
  then show ?case by simp
next
  case (Cons x xs)
  have ne: "filter P xs \<noteq> []" if "k < length xs" "P (xs ! k)" for k
    using that by (auto simp: filter_empty_conv)
  show ?case
  proof (cases i)
    case 0
    show ?thesis
    proof (cases j)
      case 0
      with \<open>i = 0\<close> show ?thesis by simp
    next
      case (Suc j')
      with Cons.prems 0 ne [of j'] show ?thesis by (cases "filter P xs") auto
    qed
  next
    case (Suc i')
    show ?thesis
    proof (cases j)
      case 0
      with Cons.prems Suc ne [of i'] show ?thesis by (cases "filter P xs") auto
    next
      case (Suc j')
      from Cons.prems \<open>i = Suc i'\<close> Suc have "length (filter P xs) \<le> 1" by (auto split: if_splits)
      from Cons.IH [OF this, of i' j'] Cons.prems \<open>i = Suc i'\<close> Suc show ?thesis by simp
    qed
  qed
qed

lemma calmer_fgpid:
  assumes c: "calmer a b" and one: "fg_count a \<le> 1" and ne: "fgpid a \<noteq> p" and p: "p \<noteq> 0"
  shows "fgpid b \<noteq> p"
proof (cases "first_idx (\<lambda>j. state j = FG) b")
  case None
  with p show ?thesis by (simp add: fgpid_def)
next
  case (Some k)
  from first_idx_Some [OF Some] have k: "k < length b" "state (b ! k) = FG" by simp_all
  from c have len: "length a = length b" and nth: "\<And>i. i < length a \<Longrightarrow> state (b ! i) = FG \<longrightarrow> b ! i = a ! i"
    by (auto simp: calmer_def list_all2_conv_all_nth)
  from k len nth [of k] have ak: "state (a ! k) = FG" "b ! k = a ! k" by simp_all
  with k len have "\<exists>x\<in>set a. state x = FG" by (metis nth_mem)
  then obtain k0 where k0: "first_idx (\<lambda>j. state j = FG) a = Some k0"
    by (cases "first_idx (\<lambda>j. state j = FG) a") (auto simp: first_idx_None)
  from first_idx_Some [OF k0] have "k0 < length a" "state (a ! k0) = FG" by simp_all
  with one ak k len have "k0 = k"
    using filter_le_one_unique [of "\<lambda>j. state j = FG" a k0 k] by (simp add: fg_count_def)
  with k0 ne have "pid (a ! k) \<noteq> p" by (simp add: fgpid_def)
  with Some ak show ?thesis by (simp add: fgpid_def)
qed

lemma waitfg_unfold:
  "waitfg p evs s =
     andthen (arrive (batch evs 0) s) (\<lambda>s0.
       andthen (waitfg_loop p (sigmask s0) (drop 1 evs) (s0\<lparr>sigmask := sigmask s0 \<union> {SIGCHLD}\<rparr>))
         (setmask (sigmask s0)))"
  by (simp add: waitfg_def Let_def)

lemma waitfg_Returned:
  assumes r: "waitfg p evs s = Returned s'"
  shows "sigmask s' = sigmask s \<and>
         (\<exists>st. fgpid (jobs st) \<noteq> p \<and> calmer (jobs s) (jobs st) \<and> setmask (sigmask s) st = Returned s')"
proof -
  from r obtain s0 st where a: "arrive (batch evs 0) s = Returned s0"
    and b: "waitfg_loop p (sigmask s0) (drop 1 evs) (s0\<lparr>sigmask := sigmask s0 \<union> {SIGCHLD}\<rparr>) = Returned st"
    and c: "setmask (sigmask s0) st = Returned s'"
    by (auto simp: waitfg_unfold andthen_Returned)
  from arrive_frame [of "batch evs 0" s] a have m: "sigmask s0 = sigmask s" by simp
  from arrive_calmer [of s "batch evs 0"] a have c1: "calmer (jobs s) (jobs s0)" by simp
  from waitfg_loop_calmer [of "s0\<lparr>sigmask := sigmask s0 \<union> {SIGCHLD}\<rparr>" p "sigmask s0" "drop 1 evs"] b
  have c2: "calmer (jobs s0) (jobs st)" by simp
  from setmask_frame [of "sigmask s0" st] c have "sigmask s' = sigmask s0" by simp
  with m c waitfg_loop_Returned [OF b] calmer_trans [OF c1 c2] show ?thesis by auto
qed


lemma waitfg_Returned_fgpid:
  assumes r: "waitfg p evs s = Returned s'" and one: "fg_count (jobs s) \<le> 1" and p: "p \<noteq> 0"
  shows "fgpid (jobs s') \<noteq> p"
proof -
  from waitfg_Returned [OF r] obtain st where st: "fgpid (jobs st) \<noteq> p" "calmer (jobs s) (jobs st)"
    "setmask (sigmask s) st = Returned s'" by blast
  from calmer_fg_count [OF st(2)] one have one': "fg_count (jobs st) \<le> 1" by simp
  from setmask_frame [of "sigmask s" st] st(3) have "calmer (jobs st) (jobs s')" by simp
  from calmer_fgpid [OF this one' st(1) p] show ?thesis .
qed

lemma reap_one_frame [simp]:
  "sigmask (reap_one r s) = sigmask s" "pending (reap_one r s) = pending s"
  "verbose (reap_one r s) = verbose s" "ready (reap_one r s) = ready s"
  by (simp_all add: reap_one_def)

lemma sigchld_handler_single:
  assumes "0 < rpid r" "wr_ok r" "getjobpid (jobs s) (rpid r) \<noteq> None"
  shows "sigchld_handler [r] s = Returned (reap_one r s)"
  using sigchld_handler_step [of r s "[]"] assms by simp

text \<open>The foreground job of a table with one foreground entry, and what a status change
  of that job leaves.\<close>

lemma fg_job_found:
  assumes ok: "table_ok (jobs s)" and un: "pids_unique (jobs s)"
    and f: "first_idx (\<lambda>j. state j = FG) (jobs s) = Some i"
  shows "fgpid (jobs s) = pid (jobs s ! i)" "0 < pid (jobs s ! i)"
    "getjobpid (jobs s) (pid (jobs s ! i)) = Some i"
proof -
  from first_idx_Some [OF f] have il: "i < length (jobs s)" and fg: "state (jobs s ! i) = FG" by auto
  from il have "jobs s ! i \<in> set (jobs s)" by simp
  from table_okD [OF ok this] fg show pos: "0 < pid (jobs s ! i)" by auto
  from f show "fgpid (jobs s) = pid (jobs s ! i)" by (simp add: fgpid_def)
  from pos have "pid (jobs s ! i) \<noteq> 0" by simp
  from getjobpid_unique [OF ok un il this] show "getjobpid (jobs s) (pid (jobs s ! i)) = Some i" .
qed

lemma reap_fg_job:
  assumes ok: "table_ok (jobs s)" and un: "pids_unique (jobs s)"
    and f: "first_idx (\<lambda>j. state j = FG) (jobs s) = Some i"
    and one: "fg_count (jobs s) \<le> 1"
    and r: "rpid r = pid (jobs s ! i)"
  shows "nofg (jobs (reap_one r s))"
proof -
  from first_idx_Some [OF f] have il: "i < length (jobs s)" and fg: "state (jobs s ! i) = FG" by auto
  from fg_job_found [OF ok un f] r have g: "getjobpid (jobs s) (rpid r) = Some i" by simp
  have "state (jobs (reap_one r s) ! k) \<noteq> FG" if k: "k < length (jobs s)" for k
  proof (cases "k = i")
    case True
    with reap_one_nth_hit [OF g] show ?thesis
      by (cases "rstatus r") (simp_all add: after_status_def)
  next
    case False
    with g have "getjobpid (jobs s) (rpid r) \<noteq> Some k" by simp
    from reap_one_nth_miss [OF this] have e: "jobs (reap_one r s) ! k = jobs s ! k" .
    show ?thesis
    proof
      assume "state (jobs (reap_one r s) ! k) = FG"
      with e have "state (jobs s ! k) = FG" by simp
      with one k il fg have "k = i"
        using filter_le_one_unique [of "\<lambda>j. state j = FG" "jobs s" k i] by (simp add: fg_count_def)
      with False show False by simp
    qed
  qed
  then show ?thesis by (auto simp: nofg_def in_set_conv_nth)
qed

lemma waitfg_asleep:
  assumes "fgpid (jobs s) = p" "settled s"
  shows "waitfg p [] s = Blocked (emit (Sigsuspend (sigmask s)) s)"
proof -
  let ?s1 = "s\<lparr>sigmask := sigmask s \<union> {SIGCHLD}\<rparr>"
  from assms(2) have "list_all (\<lambda>e. sig_of e \<in> sigmask s) (pending ?s1)" by (simp add: settled_def)
  from sigsuspend_asleep [OF this, of "[]"]
  have "sigsuspend (sigmask s) [] ?s1 = Blocked (emit (Sigsuspend (sigmask s)) s)"
    by (simp add: emit_def)
  with assms(1) show ?thesis by (simp add: waitfg_unfold)
qed

lemma waitfg_not_fg:
  assumes "fgpid (jobs s) \<noteq> p" "pending s = []"
  shows "waitfg p [] s = Returned s"
  using assms by (simp add: waitfg_unfold setmask_none)

text \<open>No wake-up is lost: wherever the \<^verbatim>\<open>SIGCHLD\<close> of the foreground job arrives.\<close>

lemma waitfg_wakes:
  assumes ok: "table_ok (jobs s)" and un: "pids_unique (jobs s)"
    and f: "first_idx (\<lambda>j. state j = FG) (jobs s) = Some i"
    and one: "fg_count (jobs s) \<le> 1"
    and r: "rpid r = pid (jobs s ! i)" "wr_ok r"
    and m: "SIGCHLD \<notin> sigmask s" and pe: "pending s = []"
  shows "waitfg (pid (jobs s ! i)) [[Chld [r]]] s = Returned (reap_one r s)"
    and "waitfg (pid (jobs s ! i)) [[], [Chld [r]]] s =
           Returned (reap_one r (emit (Sigsuspend (sigmask s)) s))"
    and "waitfg (pid (jobs s ! i)) [[], [], [Chld [r]]] s =
           Returned (reap_one r (emit (Sigsuspend (sigmask s)) s))"
proof -
  let ?p = "pid (jobs s ! i)"
  let ?m = "sigmask s"
  note fj = fg_job_found [OF ok un f]
  from reap_fg_job [OF ok un f one r(1)] have nf: "nofg (jobs (reap_one r s))" .
  from nofg_fgpid [OF nf] fj(2) have gone: "fgpid (jobs (reap_one r s)) \<noteq> ?p" by simp
  have h: "sigchld_handler [r] t = Returned (reap_one r t)" if "jobs t = jobs s" for t
    using sigchld_handler_single [of r t] r fj that by simp
  have rj: "jobs (reap_one r t) = jobs (reap_one r s)" if "jobs t = jobs s" for t
    using that by (simp add: reap_one_def split: option.splits)
  have d: "deliver (Chld [r]) t = Returned (reap_one r t)" if "jobs t = jobs s" for t
    using h [OF that] by (simp del: sigchld_handler.simps)
  have "arrive [Chld [r]] s = Returned (reap_one r s)"
    using m d [of s] by (simp del: deliver.simps)
  moreover have "(reap_one r s)\<lparr>sigmask := ?m\<rparr> = reap_one r s"
    by (simp add: reap_one_def)
  ultimately show "waitfg ?p [[Chld [r]]] s = Returned (reap_one r s)"
    using pe gone by (simp add: waitfg_unfold setmask_none del: arrive.simps)
  let ?s1 = "s\<lparr>sigmask := ?m \<union> {SIGCHLD}\<rparr>"
  let ?e = "emit (Sigsuspend ?m) s"
  let ?out = "(reap_one r ?e)\<lparr>sigmask := ?m \<union> {SIGCHLD}\<rparr>"
  have woken: "arrive [Chld [r]] ?e = Returned (reap_one r ?e)"
    using m d [of ?e] by (simp del: deliver.simps)
  have turn2: "wait_turn ?m [Chld [r]] [] ?s1 = Returned ?out"
  proof -
    let ?t0 = "?s1\<lparr>pending := [Chld [r]]\<rparr>"
    have a: "arrive [Chld [r]] ?s1 = Returned ?t0" using pe by simp
    have due: "list_ex (\<lambda>e. sig_of e \<notin> ?m) (pending ?t0)" using m by simp
    have u: "(emit (Sigsuspend ?m) ?t0)\<lparr>sigmask := ?m, pending := []\<rparr> = ?e"
      using pe by (cases s) (simp add: emit_def)
    have "sigsuspend ?m [] ?t0 = Returned ?out"
      unfolding sigsuspend_due [OF due] u using woken by (simp del: arrive.simps(2))
    with a show ?thesis by (simp add: wait_turn_def del: arrive.simps(2))
  qed
  have turn3: "wait_turn ?m [] [Chld [r]] ?s1 = Returned ?out"
  proof -
    have nd: "\<not> list_ex (\<lambda>e. sig_of e \<notin> ?m) (pending ?s1)" using pe by simp
    have u: "(emit (Sigsuspend ?m) ?s1)\<lparr>sigmask := ?m\<rparr> = ?e"
      by (cases s) (simp add: emit_def)
    have "sleep [Chld [r]] ?e = (Returned (reap_one r ?e), [])"
      using m d [of ?e] by (simp del: deliver.simps)
    then show ?thesis
      unfolding wait_turn_Nil sigsuspend_sleep [OF nd] u by simp
  qed
  have "(reap_one r ?e)\<lparr>sigmask := ?m\<rparr> = reap_one r ?e"
    by (simp add: reap_one_def emit_def)
  then have after: "andthen (waitfg_loop ?p ?m [] ?out) (setmask ?m) = Returned (reap_one r ?e)"
    using gone rj [of ?e] pe by (simp add: setmask_none)
  from f fj(1) have t: "fgpid (jobs ?s1) = ?p" by simp
  show "waitfg ?p [[], [Chld [r]]] s = Returned (reap_one r ?e)"
    using t turn2 after by (simp add: waitfg_unfold del: arrive.simps(2))
  show "waitfg ?p [[], [], [Chld [r]]] s = Returned (reap_one r ?e)"
    using t turn3 after by (simp add: waitfg_unfold del: arrive.simps(2))
qed

lemma suspends_0: "suspends t = 0 \<Longrightarrow> e \<in> set t \<Longrightarrow> \<not> is_suspend e"
  by (auto simp: suspends_def filter_empty_conv)

lemma length_hold: "length (hold e ps) \<le> Suc (length ps)"
  by (induction ps) auto

lemma arrive_count:
  "length (pending (state_of (arrive es s))) \<le>
     length (pending s) + length (filter (\<lambda>e. sig_of e \<in> sigmask s) es)"
proof (induction es arbitrary: s)
  case Nil
  then show ?case by simp
next
  case (Cons e es)
  show ?case
  proof (cases "sig_of e \<in> sigmask s")
    case True
    from Cons.IH [of "s\<lparr>pending := hold e (pending s)\<rparr>"] length_hold [of e "pending s"] True
    show ?thesis by simp
  next
    case False
    from deliver_frame [of e s] have a: "pending (state_of (deliver e s)) = pending s"
      "sigmask (state_of (deliver e s)) = sigmask s" by simp_all
    show ?thesis
    proof (cases "deliver e s")
      case (Returned s1)
      with a Cons.IH [of s1] False show ?thesis by simp
    qed (use a False in simp_all)
  qed
qed

lemma arrive_count_le: "length (pending (state_of (arrive es s))) \<le> length (pending s) + length es"
  using arrive_count [of es s] length_filter_le [of "\<lambda>e. sig_of e \<in> sigmask s" es] by linarith

lemma arrive_trace: "\<exists>t. trace (state_of (arrive es s)) = trace s @ t \<and> suspends t = 0"
proof (induction es arbitrary: s)
  case Nil
  then show ?case by simp
next
  case (Cons e es)
  show ?case
  proof (cases "sig_of e \<in> sigmask s")
    case True
    with Cons.IH [of "s\<lparr>pending := hold e (pending s)\<rparr>"] show ?thesis by simp
  next
    case False
    from deliver_trace [of e s] obtain t where t: "trace (state_of (deliver e s)) = trace s @ t" "suspends t = 0"
      by blast
    show ?thesis
    proof (cases "deliver e s")
      case (Returned s1)
      from Cons.IH [of s1] obtain u where "trace (state_of (arrive es s1)) = trace s1 @ u" "suspends u = 0"
        by blast
      with t Returned False have "trace (state_of (arrive (e # es) s)) = trace s @ (t @ u) \<and> suspends (t @ u) = 0"
        by simp
      then show ?thesis by blast
    qed (use t False in auto)
  qed
qed

lemma sleep_count:
  "sleep es s = (Returned s2, rest) \<Longrightarrow>
     length (pending s2) + length rest < length (pending s) + length es"
proof (induction es arbitrary: s)
  case Nil
  then show ?case by simp
next
  case (Cons e es)
  show ?case
  proof (cases "sig_of e \<in> sigmask s")
    case True
    with Cons.prems have "sleep es (s\<lparr>pending := hold e (pending s)\<rparr>) = (Returned s2, rest)" by simp
    from Cons.IH [OF this] length_hold [of e "pending s"] show ?thesis by simp
  next
    case False
    with Cons.prems have "deliver e s = Returned s2" "rest = es" by simp_all
    with deliver_frame [of e s] show ?thesis by simp
  qed
qed

lemma sleep_trace: "\<exists>t. trace (state_of (fst (sleep es s))) = trace s @ t \<and> suspends t = 0"
proof (induction es arbitrary: s)
  case Nil
  then show ?case by simp
next
  case (Cons e es)
  show ?case
  proof (cases "sig_of e \<in> sigmask s")
    case True
    with Cons.IH [of "s\<lparr>pending := hold e (pending s)\<rparr>"] show ?thesis by simp
  next
    case False
    with deliver_trace [of e s] show ?thesis by simp
  qed
qed

lemma sigsuspend_Returned_count:
  assumes "sigsuspend m late s = Returned s'"
  shows "length (pending s') < length (pending s) + length late \<and>
         (\<exists>t. trace s' = trace s @ Sigsuspend m # t \<and> suspends t = 0)"
proof (cases "list_ex (\<lambda>e. sig_of e \<notin> m) (pending s)")
  case True
  let ?s1 = "(emit (Sigsuspend m) s)\<lparr>sigmask := m, pending := []\<rparr>"
  from assms True obtain s2 where a: "arrive (pending s) ?s1 = Returned s2"
    and b: "arrive late (s2\<lparr>sigmask := sigmask s\<rparr>) = Returned s'"
    by (auto simp: sigsuspend_due andthen_Returned)
  from True have "length (filter (\<lambda>e. sig_of e \<in> m) (pending s)) < length (pending s)"
    by (auto simp: list_ex_iff intro: length_filter_less)
  with arrive_count [of "pending s" ?s1] a have c1: "length (pending s2) < length (pending s)" by simp
  from arrive_count_le [of late "s2\<lparr>sigmask := sigmask s\<rparr>"] b
  have c2: "length (pending s') \<le> length (pending s2) + length late" by simp
  from arrive_trace [of "pending s" ?s1] a obtain t where t: "trace s2 = trace s @ Sigsuspend m # t" "suspends t = 0"
    by auto
  from arrive_trace [of late "s2\<lparr>sigmask := sigmask s\<rparr>"] b obtain u where u: "trace s' = trace s2 @ u" "suspends u = 0"
    by auto
  from t u have "trace s' = trace s @ Sigsuspend m # (t @ u) \<and> suspends (t @ u) = 0" by simp
  moreover from c1 c2 have "length (pending s') < length (pending s) + length late" by linarith
  ultimately show ?thesis by blast
next
  case False
  let ?s1 = "(emit (Sigsuspend m) s)\<lparr>sigmask := m\<rparr>"
  obtain out rest where sl: "sleep late ?s1 = (out, rest)" by (cases "sleep late ?s1")
  with assms False obtain s2 where o: "out = Returned s2" and b: "arrive rest (s2\<lparr>sigmask := sigmask s\<rparr>) = Returned s'"
    by (cases out) (simp_all add: sigsuspend_sleep)
  from sleep_count [of late ?s1 s2 rest] sl o have c1: "length (pending s2) + length rest < length (pending s) + length late"
    by simp
  from arrive_count_le [of rest "s2\<lparr>sigmask := sigmask s\<rparr>"] b
  have c2: "length (pending s') \<le> length (pending s2) + length rest" by simp
  from sleep_trace [of late ?s1] sl o obtain t where t: "trace s2 = trace s @ Sigsuspend m # t" "suspends t = 0"
    by auto
  from arrive_trace [of rest "s2\<lparr>sigmask := sigmask s\<rparr>"] b obtain u where u: "trace s' = trace s2 @ u" "suspends u = 0"
    by auto
  from t u have "trace s' = trace s @ Sigsuspend m # (t @ u) \<and> suspends (t @ u) = 0" by simp
  moreover from c1 c2 have "length (pending s') < length (pending s) + length late" by linarith
  ultimately show ?thesis by blast
qed

lemma wait_turn_Returned_count:
  assumes "wait_turn prev early late s = Returned s'"
  shows "length (pending s') < length (pending s) + length early + length late \<and>
         (\<exists>t. trace s' = trace s @ t \<and> suspends t = 1 \<and>
              (\<forall>e\<in>set t. is_suspend e \<longrightarrow> e = Sigsuspend prev))"
proof -
  from assms obtain s0 where a: "arrive early s = Returned s0" and b: "sigsuspend prev late s0 = Returned s'"
    by (auto simp: wait_turn_def andthen_Returned)
  from arrive_count_le [of early s] a have c1: "length (pending s0) \<le> length (pending s) + length early" by simp
  from arrive_trace [of early s] a obtain t where t: "trace s0 = trace s @ t" "suspends t = 0" by auto
  from sigsuspend_Returned_count [OF b] obtain u where c2: "length (pending s') < length (pending s0) + length late"
    and u: "trace s' = trace s0 @ Sigsuspend prev # u" "suspends u = 0" by blast
  let ?t = "t @ Sigsuspend prev # u"
  from t u have "trace s' = trace s @ ?t" "suspends ?t = 1" by simp_all
  moreover have "\<forall>e\<in>set ?t. is_suspend e \<longrightarrow> e = Sigsuspend prev"
    using suspends_0 [OF t(2)] suspends_0 [OF u(2)] by auto
  moreover from c1 c2 have "length (pending s') < length (pending s) + length early + length late" by linarith
  ultimately show ?thesis by blast
qed

lemma concat_batch_drop: "length (batch bs 0) + length (concat (drop 1 bs)) = length (concat bs)"
  by (cases bs) simp_all

lemma waitfg_loop_count:
  "waitfg_loop p prev bs s = Returned s' \<Longrightarrow>
     \<exists>t. trace s' = trace s @ t \<and>
         suspends t + length (pending s') \<le> length (pending s) + length (concat bs) \<and>
         (\<forall>e\<in>set t. is_suspend e \<longrightarrow> e = Sigsuspend prev)"
proof (induction p prev bs s rule: waitfg_loop.induct)
  case (1 p prev s)
  show ?case
  proof (cases "fgpid (jobs s) = p")
    case False
    with "1.prems" show ?thesis by simp
  next
    case True
    with "1.prems" obtain s1 where a: "sigsuspend prev [] s = Returned s1"
      and b: "(if fgpid (jobs s1) = p then sigsuspend prev [] s1 else Returned s1) = Returned s'"
      by (auto simp: andthen_Returned)
    from sigsuspend_twice [OF a] b have e: "s' = s1" by (auto split: if_splits)
    from sigsuspend_Returned_count [OF a] obtain t where c: "length (pending s1) < length (pending s)"
      and t: "trace s1 = trace s @ Sigsuspend prev # t" "suspends t = 0" by auto
    let ?t = "Sigsuspend prev # t"
    from t e have "trace s' = trace s @ ?t" by simp
    moreover from t c e have "suspends ?t + length (pending s') \<le> length (pending s) + length (concat [])"
      by simp
    moreover have "\<forall>e\<in>set ?t. is_suspend e \<longrightarrow> e = Sigsuspend prev"
      using suspends_0 [OF t(2)] by auto
    ultimately show ?thesis by blast
  qed
next
  case (2 p prev early bs s)
  show ?case
  proof (cases "fgpid (jobs s) = p")
    case False
    with "2.prems" show ?thesis by simp
  next
    case True
    with "2.prems" obtain s1 where a: "wait_turn prev early (batch bs 0) s = Returned s1"
      and b: "waitfg_loop p prev (drop 1 bs) s1 = Returned s'"
      by (auto simp: andthen_Returned)
    from wait_turn_Returned_count [OF a] obtain t where
      c1: "length (pending s1) < length (pending s) + length early + length (batch bs 0)"
      and t: "trace s1 = trace s @ t" "suspends t = 1" "\<forall>e\<in>set t. is_suspend e \<longrightarrow> e = Sigsuspend prev"
      by blast
    from "2.IH" [OF True b] obtain u where
      u: "trace s' = trace s1 @ u"
        "suspends u + length (pending s') \<le> length (pending s1) + length (concat (drop 1 bs))"
        "\<forall>e\<in>set u. is_suspend e \<longrightarrow> e = Sigsuspend prev"
      by blast
    let ?t = "t @ u"
    from t u have "trace s' = trace s @ ?t" by simp
    moreover from t(2) u(2) c1 concat_batch_drop [of bs]
    have "suspends ?t + length (pending s') \<le> length (pending s) + length (concat (early # bs))"
      by simp
    moreover from t(3) u(3) have "\<forall>e\<in>set ?t. is_suspend e \<longrightarrow> e = Sigsuspend prev" by auto
    ultimately show ?thesis by blast
  qed
qed

lemma waitfg_count:
  assumes "waitfg p evs s = Returned s'"
  shows "\<exists>t. trace s' = trace s @ t \<and> suspends t \<le> length (pending s) + length (concat evs) \<and>
           (\<forall>e\<in>set t. is_suspend e \<longrightarrow> e = Sigsuspend (sigmask s))"
proof -
  from assms obtain s0 st where a: "arrive (batch evs 0) s = Returned s0"
    and b: "waitfg_loop p (sigmask s0) (drop 1 evs) (s0\<lparr>sigmask := sigmask s0 \<union> {SIGCHLD}\<rparr>) = Returned st"
    and c: "setmask (sigmask s0) st = Returned s'"
    by (auto simp: waitfg_unfold andthen_Returned)
  from arrive_frame [of "batch evs 0" s] a have m: "sigmask s0 = sigmask s" by simp
  from arrive_count_le [of "batch evs 0" s] a
  have c0: "length (pending s0) \<le> length (pending s) + length (batch evs 0)" by simp
  from arrive_trace [of "batch evs 0" s] a obtain t where t: "trace s0 = trace s @ t" "suspends t = 0" by auto
  from waitfg_loop_count [OF b] obtain u where
    u: "trace st = trace s0 @ u"
      "suspends u + length (pending st) \<le> length (pending s0) + length (concat (drop 1 evs))"
      "\<forall>e\<in>set u. is_suspend e \<longrightarrow> e = Sigsuspend (sigmask s0)"
    by auto
  from arrive_trace [of "pending st" "st\<lparr>sigmask := sigmask s0, pending := []\<rparr>"] c
  obtain v where v: "trace s' = trace st @ v" "suspends v = 0" by (auto simp: setmask_def)
  let ?t = "t @ u @ v"
  from t u v have "trace s' = trace s @ ?t" by simp
  moreover from t(2) v(2) u(2) c0 concat_batch_drop [of evs]
  have "suspends ?t \<le> length (pending s) + length (concat evs)" by simp
  moreover have "\<forall>e\<in>set ?t. is_suspend e \<longrightarrow> e = Sigsuspend (sigmask s)"
    using suspends_0 [OF t(2)] suspends_0 [OF v(2)] u(3) m by auto
  ultimately show ?thesis by blast
qed

lemma sigsuspend_Blocked_facts:
  assumes "sigsuspend m late s = Blocked s'"
  shows "sigmask s' = m \<and> trace s' \<noteq> [] \<and> last (trace s') = Sigsuspend m"
  using sigsuspend_Blocked [OF assms] by simp

lemma wait_turn_Blocked:
  assumes "wait_turn prev early late s = Blocked s'"
  shows "sigmask s' = prev \<and> trace s' \<noteq> [] \<and> last (trace s') = Sigsuspend prev"
proof -
  from assms obtain s0 where "sigsuspend prev late s0 = Blocked s'"
    by (auto simp: wait_turn_def andthen_Blocked arrive_not_Blocked)
  then show ?thesis by (rule sigsuspend_Blocked_facts)
qed

lemma waitfg_loop_Blocked:
  "waitfg_loop p prev bs s = Blocked s' \<Longrightarrow>
     sigmask s' = prev \<and> trace s' \<noteq> [] \<and> last (trace s') = Sigsuspend prev"
proof (induction p prev bs s rule: waitfg_loop.induct)
  case (1 p prev s)
  from "1.prems" obtain s1 where "sigsuspend prev [] s1 = Blocked s'"
    by (auto simp: andthen_Blocked split: if_splits)
  then show ?case by (rule sigsuspend_Blocked_facts)
next
  case (2 p prev early bs s)
  from "2.prems" have t: "fgpid (jobs s) = p" by (auto split: if_splits)
  with "2.prems" consider "wait_turn prev early (batch bs 0) s = Blocked s'"
    | s1 where "waitfg_loop p prev (drop 1 bs) s1 = Blocked s'"
    by (auto simp: andthen_Blocked)
  then show ?case
  proof cases
    case 1
    then show ?thesis by (rule wait_turn_Blocked)
  next
    case 2
    from "2.IH" [OF t this] show ?thesis .
  qed
qed

lemma waitfg_Blocked:
  assumes "waitfg p evs s = Blocked s'"
  shows "sigmask s' = sigmask s \<and> trace s' \<noteq> [] \<and> last (trace s') = Sigsuspend (sigmask s)"
proof -
  from assms obtain s0 where a: "arrive (batch evs 0) s = Returned s0"
    and b: "waitfg_loop p (sigmask s0) (drop 1 evs) (s0\<lparr>sigmask := sigmask s0 \<union> {SIGCHLD}\<rparr>) = Blocked s'"
    by (auto simp: waitfg_unfold andthen_Blocked arrive_not_Blocked setmask_not_Blocked)
  from arrive_frame [of "batch evs 0" s] a have "sigmask s0 = sigmask s" by simp
  with waitfg_loop_Blocked [OF b] show ?thesis by simp
qed

text \<open>
  Claim C5. \<^verbatim>\<open>waitfg(pid)\<close>, whatever signals arrive and wherever they arrive.

  \<^item> When it returns, the mask is the one of the call, and the last thing it did before
    restoring the mask was to find \<^verbatim>\<open>fgpid(jobs)\<close> different from \<open>pid\<close>; in a table
    with at most one foreground entry \<^verbatim>\<open>fgpid(jobs)\<close> is still different from \<open>pid\<close>
    when it returns. It has called \<^verbatim>\<open>sigsuspend\<close> at most once per signal that was
    pending or arrived, always with the mask of the call: it does not poll.
  \<^item> While it is suspended the mask of the call is in force and the last call was
    \<^verbatim>\<open>sigsuspend\<close>.
  \<^item> Its loop tests the condition, runs one turn (the arrivals before
    \<^verbatim>\<open>sigsuspend\<close>, then \<^verbatim>\<open>sigsuspend\<close>) and tests again, for every list of arrivals.
  \<^item> With \<open>pid\<close> in the foreground and no signal arriving it stays suspended; with
    \<open>pid\<close> not in the foreground it returns at once.
  \<^item> No wake-up is lost: the \<^verbatim>\<open>SIGCHLD\<close> for a status change of the foreground job
    makes \<^verbatim>\<open>waitfg\<close> return whether it arrives before \<^verbatim>\<open>SIGCHLD\<close> is blocked,
    between the test and \<^verbatim>\<open>sigsuspend\<close> (it is pending then, and \<^verbatim>\<open>sigsuspend\<close>
    unblocks it and handles it without sleeping), or during the sleep.
\<close>

theorem waitfg_waits_for_foreground_job:
  "(\<forall>s'. waitfg p evs s = Returned s' \<longrightarrow>
      sigmask s' = sigmask s \<and>
      (\<exists>st. fgpid (jobs st) \<noteq> p \<and> setmask (sigmask s) st = Returned s') \<and>
      (fg_count (jobs s) \<le> 1 \<and> p \<noteq> 0 \<longrightarrow> fgpid (jobs s') \<noteq> p) \<and>
      (\<exists>t. trace s' = trace s @ t \<and> suspends t \<le> length (pending s) + length (concat evs) \<and>
           (\<forall>e\<in>set t. is_suspend e \<longrightarrow> e = Sigsuspend (sigmask s)))) \<and>
   (\<forall>s'. waitfg p evs s = Blocked s' \<longrightarrow>
      sigmask s' = sigmask s \<and> trace s' \<noteq> [] \<and> last (trace s') = Sigsuspend (sigmask s)) \<and>
   waitfg_loop p prev bs s =
     (if fgpid (jobs s) = p
      then andthen (wait_turn prev (batch bs 0) (batch bs 1) s) (waitfg_loop p prev (drop 2 bs))
      else Returned s) \<and>
   (fgpid (jobs s) = p \<and> settled s \<longrightarrow> waitfg p [] s = Blocked (emit (Sigsuspend (sigmask s)) s)) \<and>
   (fgpid (jobs s) \<noteq> p \<and> pending s = [] \<longrightarrow> waitfg p [] s = Returned s) \<and>
   (table_ok (jobs s) \<and> pids_unique (jobs s) \<and> fg_count (jobs s) \<le> 1 \<and>
    first_idx (\<lambda>j. state j = FG) (jobs s) = Some i \<and> p = pid (jobs s ! i) \<and>
    rpid r = p \<and> wr_ok r \<and> SIGCHLD \<notin> sigmask s \<and> pending s = [] \<longrightarrow>
      fgpid (jobs s) = p \<and> nofg (jobs (reap_one r s)) \<and>
      waitfg p [[Chld [r]]] s = Returned (reap_one r s) \<and>
      waitfg p [[], [Chld [r]]] s = Returned (reap_one r (emit (Sigsuspend (sigmask s)) s)) \<and>
      waitfg p [[], [], [Chld [r]]] s = Returned (reap_one r (emit (Sigsuspend (sigmask s)) s)))"
proof (intro conjI allI impI)
  fix s'
  assume r: "waitfg p evs s = Returned s'"
  from waitfg_Returned [OF r] show "sigmask s' = sigmask s"
    and "\<exists>st. fgpid (jobs st) \<noteq> p \<and> setmask (sigmask s) st = Returned s'" by blast+
  from waitfg_count [OF r]
  show "\<exists>t. trace s' = trace s @ t \<and> suspends t \<le> length (pending s) + length (concat evs) \<and>
           (\<forall>e\<in>set t. is_suspend e \<longrightarrow> e = Sigsuspend (sigmask s))" .
  assume "fg_count (jobs s) \<le> 1 \<and> p \<noteq> 0"
  with waitfg_Returned_fgpid [OF r] show "fgpid (jobs s') \<noteq> p" by simp
next
  fix s'
  assume "waitfg p evs s = Blocked s'"
  from waitfg_Blocked [OF this]
  show "sigmask s' = sigmask s" "trace s' \<noteq> []" "last (trace s') = Sigsuspend (sigmask s)" by simp_all
next
  show "waitfg_loop p prev bs s =
     (if fgpid (jobs s) = p
      then andthen (wait_turn prev (batch bs 0) (batch bs 1) s) (waitfg_loop p prev (drop 2 bs))
      else Returned s)"
    by (rule waitfg_loop_unfold)
next
  assume "fgpid (jobs s) = p \<and> settled s"
  then show "waitfg p [] s = Blocked (emit (Sigsuspend (sigmask s)) s)" by (simp add: waitfg_asleep)
next
  assume "fgpid (jobs s) \<noteq> p \<and> pending s = []"
  then show "waitfg p [] s = Returned s" by (simp add: waitfg_not_fg)
next
  assume h: "table_ok (jobs s) \<and> pids_unique (jobs s) \<and> fg_count (jobs s) \<le> 1 \<and>
    first_idx (\<lambda>j. state j = FG) (jobs s) = Some i \<and> p = pid (jobs s ! i) \<and>
    rpid r = p \<and> wr_ok r \<and> SIGCHLD \<notin> sigmask s \<and> pending s = []"
  then have ok: "table_ok (jobs s)" and un: "pids_unique (jobs s)" and one: "fg_count (jobs s) \<le> 1"
    and f: "first_idx (\<lambda>j. state j = FG) (jobs s) = Some i" and p: "p = pid (jobs s ! i)"
    and r: "rpid r = pid (jobs s ! i)" "wr_ok r" and m: "SIGCHLD \<notin> sigmask s" and pe: "pending s = []"
    by simp_all
  from fg_job_found(1) [OF ok un f] p show "fgpid (jobs s) = p" by simp
  from reap_fg_job [OF ok un f one r(1)] show "nofg (jobs (reap_one r s))" .
  from waitfg_wakes [OF ok un f one r m pe] p
  show "waitfg p [[Chld [r]]] s = Returned (reap_one r s)"
    "waitfg p [[], [Chld [r]]] s = Returned (reap_one r (emit (Sigsuspend (sigmask s)) s))"
    "waitfg p [[], [], [Chld [r]]] s = Returned (reap_one r (emit (Sigsuspend (sigmask s)) s))"
    by simp_all
qed


theorem waitfg_waits_for_foreground_job_witness:
  "table_ok (jobs fg_shell) \<and> pids_unique (jobs fg_shell) \<and> fg_count (jobs fg_shell) \<le> 1 \<and>
   first_idx (\<lambda>j. state j = FG) (jobs fg_shell) = Some 1 \<and> pid (jobs fg_shell ! 1) = 101 \<and>
   settled fg_shell \<and>
   waitfg 101 [[Chld [cat_status]]] fg_shell = Returned (reap_one cat_status fg_shell) \<and>
   waitfg 101 [[], [Chld [cat_status]]] fg_shell =
     Returned (reap_one cat_status (emit (Sigsuspend {}) fg_shell)) \<and>
   waitfg 101 [[], [], [Chld [cat_status]]] fg_shell =
     Returned (reap_one cat_status (emit (Sigsuspend {}) fg_shell)) \<and>
   jobs (reap_one cat_status fg_shell) = demo_jobs[1 := free_slot] \<and>
   fgpid (jobs (reap_one cat_status (emit (Sigsuspend {}) fg_shell))) \<noteq> 101 \<and>
   sigmask (reap_one cat_status (emit (Sigsuspend {}) fg_shell)) = {} \<and>
   waitfg 101 [] fg_shell = Blocked (emit (Sigsuspend {}) fg_shell) \<and>
   last (trace (emit (Sigsuspend {}) fg_shell)) = Sigsuspend {} \<and>
   waitfg 101 [] demo_shell = Returned demo_shell"
proof -
  have a: "table_ok (jobs fg_shell)" by code_simp
  have b: "pids_unique (jobs fg_shell)" by code_simp
  have c: "fg_count (jobs fg_shell) \<le> 1" by code_simp
  have d: "first_idx (\<lambda>j. state j = FG) (jobs fg_shell) = Some 1" by code_simp
  have e: "pid (jobs fg_shell ! 1) = 101" by code_simp
  have f: "settled fg_shell" by code_simp
  have g: "rpid cat_status = 101" "wr_ok cat_status" by (simp_all add: cat_status_def)
  have m: "sigmask fg_shell = {}" "pending fg_shell = []" by (simp_all add: fg_shell_def demo_shell_def)
  have j: "jobs (reap_one cat_status fg_shell) = demo_jobs[1 := free_slot]" by code_simp
  have n: "fgpid (jobs demo_shell) \<noteq> 101" "pending demo_shell = []" by code_simp+
  note w = waitfg_waits_for_foreground_job [where s = fg_shell and p = 101 and i = 1 and r = cat_status]
  from w a b c d e g m
  have one: "waitfg 101 [[Chld [cat_status]]] fg_shell = Returned (reap_one cat_status fg_shell)"
    and two: "waitfg 101 [[], [Chld [cat_status]]] fg_shell =
                Returned (reap_one cat_status (emit (Sigsuspend {}) fg_shell))"
    and three: "waitfg 101 [[], [], [Chld [cat_status]]] fg_shell =
                Returned (reap_one cat_status (emit (Sigsuspend {}) fg_shell))"
    and fg: "fgpid (jobs fg_shell) = 101"
    by simp_all
  from waitfg_waits_for_foreground_job [where s = fg_shell and p = 101 and evs = "[[], [Chld [cat_status]]]"]
    two c
  have gone: "fgpid (jobs (reap_one cat_status (emit (Sigsuspend {}) fg_shell))) \<noteq> 101"
    and mask: "sigmask (reap_one cat_status (emit (Sigsuspend {}) fg_shell)) = {}"
    using m by simp_all
  from w fg f m have blk: "waitfg 101 [] fg_shell = Blocked (emit (Sigsuspend {}) fg_shell)" by simp
  from waitfg_waits_for_foreground_job [where s = fg_shell and p = 101 and evs = "[]"] blk m
  have lst: "last (trace (emit (Sigsuspend {}) fg_shell)) = Sigsuspend {}" by simp
  from waitfg_waits_for_foreground_job [where s = demo_shell and p = 101] n
  have ret: "waitfg 101 [] demo_shell = Returned demo_shell" by simp
  show ?thesis by (intro conjI) (rule a b c d e f one two three j gone mask blk lst ret)+
qed


section \<open>The built-ins bg and fg on a stopped job\<close>


















lemma batch_drop [simp]: "batch (drop n bs) k = batch bs (n + k)"
  by (auto simp: batch_def less_diff_conv add.commute)









section \<open>A full table\<close>

lemma split_pipe_Cons: "\<exists>stage rest. split_pipe argv cur = stage # rest"
  by (induction argv arbitrary: cur) auto

lemma addjob_steps_full:
  assumes ok: "table_ok (jobs s)" and full: "\<forall>j\<in>set (jobs s). pid j \<noteq> 0" and p: "1 \<le> p"
    and b: "list_all (\<lambda>e. sig_of e \<in> sigmask s) (batch bs 0)"
  shows "addjob_steps bs s p st cl =
           Returned (emit (Printf ''Tried to create too many jobs\<newline>'')
                       (s\<lparr>pending := fold hold (batch bs 0) (pending s)\<rparr>))"
proof -
  let ?s0 = "s\<lparr>pending := fold hold (batch bs 0) (pending s)\<rparr>"
  from arrive_blocked [OF b] have a: "arrive (batch bs 0) s = Returned ?s0" .
  from freejid_full [OF ok full] have "freejid (jobs ?s0) = Inr 0" by simp
  with a p show ?thesis by (simp add: addjob_steps_def)
qed

lemma addjob_steps_full_quiet:
  assumes ok: "table_ok (jobs s)" and full: "\<forall>j\<in>set (jobs s). pid j \<noteq> 0" and p: "1 \<le> p"
  shows "addjob_steps [] s p st cl = Returned (emit (Printf ''Tried to create too many jobs\<newline>'') s)"
  using addjob_steps_full [OF ok full p, of "[]" st cl] by simp

lemma launch_full_fg:
  assumes ok: "table_ok (jobs s)" and full: "\<forall>j\<in>set (jobs s). pid j \<noteq> 0" and p: "1 \<le> p"
    and pe: "pending s = []"
  shows "launch False p cl m [] evs s =
           waitfg p evs ((emit (Printf ''Tried to create too many jobs\<newline>'') s)\<lparr>sigmask := m\<rparr>)"
  using addjob_steps_full_quiet [OF ok full p] pe by (simp add: launch_def setmask_none)

lemma launch_full_bg:
  assumes ok: "table_ok (jobs s)" and full: "\<forall>j\<in>set (jobs s). pid j \<noteq> 0" and p: "1 \<le> p"
    and fresh: "getjobpid (jobs s) p = None"
  shows "launch True p cl m [] evs s =
           Faulted NullDeref (emit (Printf ''Tried to create too many jobs\<newline>'') s)"
  using addjob_steps_full_quiet [OF ok full p] fresh by (simp add: launch_def)

lemma eval_single_parent:
  assumes "argv \<noteq> []" "hd argv \<notin> set [''quit'', ''jobs'', ''bg'', ''fg'']" "''|'' \<notin> set argv"
    and "0 < fork_ret w 0" "during w 0 = []"
  shows "eval cl argv w s =
           launch (last argv = ''&'') (fork_ret w 0) cl (sigmask s) [] (wake w 0)
             (emit (Setpgid (fork_ret w 0) (fork_ret w 0))
                (emit (Fork (fork_ret w 0)) (s\<lparr>sigmask := sigmask s \<union> {SIGCHLD, SIGINT, SIGTSTP}\<rparr>)))"
  using assms by (simp add: eval_def has_piping_def Let_def)

lemma eval_pipeline_parent:
  assumes "argv \<noteq> []" "hd argv \<notin> set [''quit'', ''jobs'', ''bg'', ''fg'']" "''|'' \<in> set argv"
    and "0 < fork_ret w 0" "during w 0 = []" "pipe_ret w 0 = Some (rd, wr)"
  shows "eval cl argv w s =
           andthen
             (launch (last argv = ''&'') (fork_ret w 0) cl (sigmask s) [] (wake w 0)
                (emit (Close wr) (emit (Setpgid (fork_ret w 0) (fork_ret w 0))
                   (emit (Fork (fork_ret w 0))
                      (emit (Pipe True) (s\<lparr>sigmask := sigmask s \<union> {SIGCHLD, SIGINT, SIGTSTP}\<rparr>))))))
             (pipe_loop w (last argv = ''&'') (sigmask s) cl 1 (tl (split_pipe argv [])) rd)"
proof -
  from split_pipe_Cons [of argv "[]"] obtain stage rest where sp: "split_pipe argv [] = stage # rest" by blast
  with assms show ?thesis
    by (simp add: eval_def has_piping_def my_pipe_def Let_def)
qed

text \<open>
  Claim C7, as amended. When all \<^verbatim>\<open>MAXJOBS\<close> slots are in use, \<^verbatim>\<open>addjob\<close> returns
  0, prints \<^verbatim>\<open>Tried to create too many jobs\<close> and leaves the table as it is, also
  when signals that are blocked arrive meanwhile. The launcher calls it after \<^verbatim>\<open>fork\<close>.
  With no signal arriving during the launch: for a single command and for the first stage
  of a pipeline, in the foreground and in the background, the child has been forked and put
  in its process group when the message is printed, and no job is registered for it. In the
  foreground the launcher then goes on with \<^verbatim>\<open>waitfg\<close> (and with the next stage of a
  pipeline) from the state with the unchanged table; with no foreground job and no signal
  a single command returns to the prompt in that state.
\<close>

theorem addjob_full_table_fails_after_fork:
  assumes ok: "table_ok (jobs s)" and full: "\<forall>j\<in>set (jobs s). pid j \<noteq> 0" and p: "1 \<le> p"
  shows "addjob s p st cl = Inr (0, emit (Printf ''Tried to create too many jobs\<newline>'') s) \<and>
         (list_all (\<lambda>e. sig_of e \<in> sigmask s) (batch bs 0) \<longrightarrow>
            addjob_steps bs s p st cl =
              Returned (emit (Printf ''Tried to create too many jobs\<newline>'')
                          (s\<lparr>pending := fold hold (batch bs 0) (pending s)\<rparr>))) \<and>
         (argv \<noteq> [] \<and> hd argv \<notin> set [''quit'', ''jobs'', ''bg'', ''fg''] \<and>
          fork_ret w 0 = p \<and> during w 0 = [] \<and> pending s = [] \<longrightarrow>
            (''|'' \<notin> set argv \<and> last argv \<noteq> ''&'' \<longrightarrow>
               eval cl argv w s =
                 waitfg p (wake w 0)
                   (s\<lparr>trace := trace s @ [Fork p, Setpgid p p,
                                           Printf ''Tried to create too many jobs\<newline>'']\<rparr>)) \<and>
            (''|'' \<notin> set argv \<and> last argv \<noteq> ''&'' \<and> wake w 0 = [] \<and> nofg (jobs s) \<longrightarrow>
               eval cl argv w s =
                 Returned (s\<lparr>trace := trace s @ [Fork p, Setpgid p p,
                                                  Printf ''Tried to create too many jobs\<newline>'']\<rparr>)) \<and>
            (''|'' \<notin> set argv \<and> last argv = ''&'' \<and> getjobpid (jobs s) p = None \<longrightarrow>
               state_of (eval cl argv w s) =
                 s\<lparr>sigmask := sigmask s \<union> {SIGCHLD, SIGINT, SIGTSTP},
                   trace := trace s @ [Fork p, Setpgid p p,
                                       Printf ''Tried to create too many jobs\<newline>'']\<rparr>) \<and>
            (''|'' \<in> set argv \<and> pipe_ret w 0 = Some (rd, wr) \<and> last argv \<noteq> ''&'' \<longrightarrow>
               eval cl argv w s =
                 andthen
                   (waitfg p (wake w 0)
                      (s\<lparr>trace := trace s @ [Pipe True, Fork p, Setpgid p p, Close wr,
                                              Printf ''Tried to create too many jobs\<newline>'']\<rparr>))
                   (pipe_loop w False (sigmask s) cl 1 (tl (split_pipe argv [])) rd)) \<and>
            (''|'' \<in> set argv \<and> pipe_ret w 0 = Some (rd, wr) \<and> last argv = ''&'' \<and>
             getjobpid (jobs s) p = None \<longrightarrow>
               state_of (eval cl argv w s) =
                 s\<lparr>sigmask := sigmask s \<union> {SIGCHLD, SIGINT, SIGTSTP},
                   trace := trace s @ [Pipe True, Fork p, Setpgid p p, Close wr,
                                       Printf ''Tried to create too many jobs\<newline>'']\<rparr>))"
proof (intro conjI impI)
  let ?msg = "Printf ''Tried to create too many jobs\<newline>''"
  let ?blk = "sigmask s \<union> {SIGCHLD, SIGINT, SIGTSTP}"
  show "addjob s p st cl = Inr (0, emit ?msg s)" using ok full p by (rule addjob_full)
  {
    assume "list_all (\<lambda>e. sig_of e \<in> sigmask s) (batch bs 0)"
    with ok full p show "addjob_steps bs s p st cl =
        Returned (emit ?msg (s\<lparr>pending := fold hold (batch bs 0) (pending s)\<rparr>))"
      by (rule addjob_steps_full)
  }
  assume h: "argv \<noteq> [] \<and> hd argv \<notin> set [''quit'', ''jobs'', ''bg'', ''fg''] \<and>
          fork_ret w 0 = p \<and> during w 0 = [] \<and> pending s = []"
  then have ne: "argv \<noteq> []" and nb: "hd argv \<notin> set [''quit'', ''jobs'', ''bg'', ''fg'']"
    and fk: "0 < fork_ret w 0" "fork_ret w 0 = p" and du: "during w 0 = []" and pe: "pending s = []"
    using p by simp_all
  let ?s2 = "emit (Setpgid p p) (emit (Fork p) (s\<lparr>sigmask := ?blk\<rparr>))"
  have ok2: "table_ok (jobs ?s2)" "\<forall>j\<in>set (jobs ?s2). pid j \<noteq> 0" "pending ?s2 = []"
    using ok full pe by simp_all
  have e2: "(emit ?msg ?s2)\<lparr>sigmask := sigmask s\<rparr> = s\<lparr>trace := trace s @ [Fork p, Setpgid p p, ?msg]\<rparr>"
    by (cases s) (simp add: emit_def)
  have f2: "emit ?msg ?s2 = s\<lparr>sigmask := ?blk, trace := trace s @ [Fork p, Setpgid p p, ?msg]\<rparr>"
    by (cases s) (simp add: emit_def)
  {
    assume a: "''|'' \<notin> set argv \<and> last argv \<noteq> ''&''"
    then have b: "''|'' \<notin> set argv" and c: "(last argv = ''&'') = False" by simp_all
    note ev = eval_single_parent [OF ne nb b fk(1) du, of cl s, unfolded fk(2) c]
    note la = launch_full_fg [OF ok2(1) ok2(2) p ok2(3), of cl "sigmask s" "wake w 0"]
    show "eval cl argv w s = waitfg p (wake w 0) (s\<lparr>trace := trace s @ [Fork p, Setpgid p p, ?msg]\<rparr>)"
      by (simp only: ev la e2)
  }
  note fg = this
  {
    assume a: "''|'' \<notin> set argv \<and> last argv \<noteq> ''&'' \<and> wake w 0 = [] \<and> nofg (jobs s)"
    let ?s3 = "s\<lparr>trace := trace s @ [Fork p, Setpgid p p, ?msg]\<rparr>"
    from a p have "fgpid (jobs ?s3) \<noteq> p" by (simp add: nofg_fgpid)
    moreover have "pending ?s3 = []" using pe by simp
    ultimately have "waitfg p [] ?s3 = Returned ?s3" by (rule waitfg_not_fg)
    with fg a show "eval cl argv w s = Returned ?s3" by simp
  }
  {
    assume a: "''|'' \<notin> set argv \<and> last argv = ''&'' \<and> getjobpid (jobs s) p = None"
    then have b: "''|'' \<notin> set argv" and c: "(last argv = ''&'') = True" by simp_all
    from a have fr: "getjobpid (jobs ?s2) p = None" by simp
    note ev = eval_single_parent [OF ne nb b fk(1) du, of cl s, unfolded fk(2) c]
    note la = launch_full_bg [OF ok2(1) ok2(2) p fr, of cl "sigmask s" "wake w 0"]
    show "state_of (eval cl argv w s) = s\<lparr>sigmask := ?blk, trace := trace s @ [Fork p, Setpgid p p, ?msg]\<rparr>"
      by (simp only: ev la f2 state_of.simps)
  }
  let ?s4 = "emit (Close wr) (emit (Setpgid p p) (emit (Fork p) (emit (Pipe True) (s\<lparr>sigmask := ?blk\<rparr>))))"
  have ok4: "table_ok (jobs ?s4)" "\<forall>j\<in>set (jobs ?s4). pid j \<noteq> 0" "pending ?s4 = []"
    using ok full pe by simp_all
  have e4: "(emit ?msg ?s4)\<lparr>sigmask := sigmask s\<rparr> =
      s\<lparr>trace := trace s @ [Pipe True, Fork p, Setpgid p p, Close wr, ?msg]\<rparr>"
    by (cases s) (simp add: emit_def)
  have f4: "emit ?msg ?s4 =
      s\<lparr>sigmask := ?blk, trace := trace s @ [Pipe True, Fork p, Setpgid p p, Close wr, ?msg]\<rparr>"
    by (cases s) (simp add: emit_def)
  {
    assume a: "''|'' \<in> set argv \<and> pipe_ret w 0 = Some (rd, wr) \<and> last argv \<noteq> ''&''"
    then have pr: "pipe_ret w 0 = Some (rd, wr)" and pi: "''|'' \<in> set argv"
      and c: "(last argv = ''&'') = False" by simp_all
    note ev = eval_pipeline_parent [OF ne nb pi fk(1) du pr, of cl s, unfolded fk(2) c]
    note la = launch_full_fg [OF ok4(1) ok4(2) p ok4(3), of cl "sigmask s" "wake w 0"]
    show "eval cl argv w s =
        andthen (waitfg p (wake w 0)
                   (s\<lparr>trace := trace s @ [Pipe True, Fork p, Setpgid p p, Close wr, ?msg]\<rparr>))
          (pipe_loop w False (sigmask s) cl 1 (tl (split_pipe argv [])) rd)"
      by (simp only: ev la e4)
  }
  {
    assume a: "''|'' \<in> set argv \<and> pipe_ret w 0 = Some (rd, wr) \<and> last argv = ''&'' \<and>
             getjobpid (jobs s) p = None"
    then have pr: "pipe_ret w 0 = Some (rd, wr)" and pi: "''|'' \<in> set argv"
      and c: "(last argv = ''&'') = True" by simp_all
    from a have fr: "getjobpid (jobs ?s4) p = None" by simp
    note ev = eval_pipeline_parent [OF ne nb pi fk(1) du pr, of cl s, unfolded fk(2) c]
    note la = launch_full_bg [OF ok4(1) ok4(2) p fr, of cl "sigmask s" "wake w 0"]
    show "state_of (eval cl argv w s) =
        s\<lparr>sigmask := ?blk, trace := trace s @ [Pipe True, Fork p, Setpgid p p, Close wr, ?msg]\<rparr>"
      by (simp only: ev la f4 andthen_simps state_of.simps)
  }
qed

theorem addjob_full_table_fails_after_fork_witness:
  "table_ok (jobs full_shell) \<and> list_all (\<lambda>j. pid j \<noteq> 0) (jobs full_shell) \<and>
   addjob full_shell 99 FG ''sleep 5\<newline>'' =
     Inr (0, full_shell\<lparr>trace := [Printf ''Tried to create too many jobs\<newline>'']\<rparr>) \<and>
   eval ''sleep 5\<newline>'' [''sleep'', ''5''] (quiet_world 99) full_shell =
     Returned (full_shell\<lparr>trace := [Fork 99, Setpgid 99 99,
                                      Printf ''Tried to create too many jobs\<newline>'']\<rparr>) \<and>
   state_of (eval ''sleep 5 &\<newline>'' [''sleep'', ''5'', ''&''] (quiet_world 99) full_shell) =
     full_shell\<lparr>sigmask := {SIGCHLD, SIGINT, SIGTSTP},
                trace := [Fork 99, Setpgid 99 99, Printf ''Tried to create too many jobs\<newline>'']\<rparr> \<and>
   eval ''ls | wc\<newline>'' ls_wc_fg (quiet_world 99) full_shell =
     Returned (full_shell\<lparr>trace := [Pipe True, Fork 99, Setpgid 99 99, Close 4,
                                      Printf ''Tried to create too many jobs\<newline>'',
                                      Pipe True, Fork 100, Setpgid 100 100, Close 3, Close 4,
                                      Printf ''Tried to create too many jobs\<newline>'']\<rparr>) \<and>
   state_of (eval ''ls | wc &\<newline>'' ls_wc_bg (quiet_world 99) full_shell) =
     full_shell\<lparr>sigmask := {SIGCHLD, SIGINT, SIGTSTP},
                trace := [Pipe True, Fork 99, Setpgid 99 99, Close 4,
                          Printf ''Tried to create too many jobs\<newline>'']\<rparr>"
proof -
  let ?msg = "Printf ''Tried to create too many jobs\<newline>''"
  let ?w = "quiet_world 99"
  have a: "table_ok (jobs full_shell)" by code_simp
  have b: "\<forall>j\<in>set (jobs full_shell). pid j \<noteq> 0" by code_simp
  have p: "(1::int) \<le> 99" by simp
  have w: "fork_ret ?w 0 = 99" "during ?w 0 = []" "wake ?w 0 = []" "pipe_ret ?w 0 = Some (3, 4)"
    by (simp_all add: quiet_world_def)
  have s: "pending full_shell = []" "nofg (jobs full_shell)" "getjobpid (jobs full_shell) 99 = None"
    "trace full_shell = []" "sigmask full_shell = {}"
    by code_simp+
  note t = addjob_full_table_fails_after_fork [OF a b p, where w = ?w and rd = 3 and wr = 4]
  have e0: "emit ?msg full_shell = full_shell\<lparr>trace := [?msg]\<rparr>"
    by (simp add: emit_def s)
  from t [of FG "''sleep 5\<newline>''"] have
    c1: "addjob full_shell 99 FG ''sleep 5\<newline>'' = Inr (0, full_shell\<lparr>trace := [?msg]\<rparr>)"
    by (simp only: e0)
  have h1: "[''sleep'', ''5''] \<noteq> [] \<and> hd [''sleep'', ''5''] \<notin> set [''quit'', ''jobs'', ''bg'', ''fg''] \<and>
      fork_ret ?w 0 = 99 \<and> during ?w 0 = [] \<and> pending full_shell = []"
    using w s by simp
  have g1: "''|'' \<notin> set [''sleep'', ''5''] \<and> last [''sleep'', ''5''] \<noteq> ''&'' \<and> wake ?w 0 = [] \<and>
      nofg (jobs full_shell)"
    using w s by simp
  from t [where argv = "[''sleep'', ''5'']" and cl = "''sleep 5\<newline>''"] h1 g1
  have "eval ''sleep 5\<newline>'' [''sleep'', ''5''] ?w full_shell =
      Returned (full_shell\<lparr>trace := trace full_shell @ [Fork 99, Setpgid 99 99, ?msg]\<rparr>)"
    by blast
  then have c2: "eval ''sleep 5\<newline>'' [''sleep'', ''5''] ?w full_shell =
      Returned (full_shell\<lparr>trace := [Fork 99, Setpgid 99 99, ?msg]\<rparr>)"
    by (simp only: s append_Nil)
  have h2: "[''sleep'', ''5'', ''&''] \<noteq> [] \<and>
      hd [''sleep'', ''5'', ''&''] \<notin> set [''quit'', ''jobs'', ''bg'', ''fg''] \<and>
      fork_ret ?w 0 = 99 \<and> during ?w 0 = [] \<and> pending full_shell = []"
    using w s by simp
  have g2: "''|'' \<notin> set [''sleep'', ''5'', ''&''] \<and> last [''sleep'', ''5'', ''&''] = ''&'' \<and>
      getjobpid (jobs full_shell) 99 = None"
    using s by simp
  from t [where argv = "[''sleep'', ''5'', ''&'']" and cl = "''sleep 5 &\<newline>''"] h2 g2
  have "state_of (eval ''sleep 5 &\<newline>'' [''sleep'', ''5'', ''&''] ?w full_shell) =
      full_shell\<lparr>sigmask := sigmask full_shell \<union> {SIGCHLD, SIGINT, SIGTSTP},
                 trace := trace full_shell @ [Fork 99, Setpgid 99 99, ?msg]\<rparr>"
    by blast
  then have c3: "state_of (eval ''sleep 5 &\<newline>'' [''sleep'', ''5'', ''&''] ?w full_shell) =
      full_shell\<lparr>sigmask := {SIGCHLD, SIGINT, SIGTSTP}, trace := [Fork 99, Setpgid 99 99, ?msg]\<rparr>"
    by (simp only: s append_Nil Un_empty_left)
  have h3: "ls_wc_fg \<noteq> [] \<and> hd ls_wc_fg \<notin> set [''quit'', ''jobs'', ''bg'', ''fg''] \<and>
      fork_ret ?w 0 = 99 \<and> during ?w 0 = [] \<and> pending full_shell = []"
    using w s by (simp add: ls_wc_fg_def)
  have g3: "''|'' \<in> set ls_wc_fg \<and> pipe_ret ?w 0 = Some (3, 4) \<and> last ls_wc_fg \<noteq> ''&''"
    using w by (simp add: ls_wc_fg_def)
  have x3: "andthen
        (waitfg 99 (wake ?w 0)
           (full_shell\<lparr>trace := trace full_shell @ [Pipe True, Fork 99, Setpgid 99 99, Close 4, ?msg]\<rparr>))
        (pipe_loop ?w False (sigmask full_shell) ''ls | wc\<newline>'' 1 (tl (split_pipe ls_wc_fg [])) 3) =
      Returned (full_shell\<lparr>trace := [Pipe True, Fork 99, Setpgid 99 99, Close 4, ?msg,
                                       Pipe True, Fork 100, Setpgid 100 100, Close 3, Close 4, ?msg]\<rparr>)"
    by code_simp
  from t [where argv = ls_wc_fg and cl = "''ls | wc\<newline>''"] h3 g3
  have "eval ''ls | wc\<newline>'' ls_wc_fg ?w full_shell =
      andthen
        (waitfg 99 (wake ?w 0)
           (full_shell\<lparr>trace := trace full_shell @ [Pipe True, Fork 99, Setpgid 99 99, Close 4, ?msg]\<rparr>))
        (pipe_loop ?w False (sigmask full_shell) ''ls | wc\<newline>'' 1 (tl (split_pipe ls_wc_fg [])) 3)"
    by blast
  then have c4: "eval ''ls | wc\<newline>'' ls_wc_fg ?w full_shell =
      Returned (full_shell\<lparr>trace := [Pipe True, Fork 99, Setpgid 99 99, Close 4, ?msg,
                                       Pipe True, Fork 100, Setpgid 100 100, Close 3, Close 4, ?msg]\<rparr>)"
    by (simp only: x3)
  have h4: "ls_wc_bg \<noteq> [] \<and> hd ls_wc_bg \<notin> set [''quit'', ''jobs'', ''bg'', ''fg''] \<and>
      fork_ret ?w 0 = 99 \<and> during ?w 0 = [] \<and> pending full_shell = []"
    using w s by (simp add: ls_wc_bg_def)
  have g4: "''|'' \<in> set ls_wc_bg \<and> pipe_ret ?w 0 = Some (3, 4) \<and> last ls_wc_bg = ''&'' \<and>
      getjobpid (jobs full_shell) 99 = None"
    using w s by (simp add: ls_wc_bg_def)
  from t [where argv = ls_wc_bg and cl = "''ls | wc &\<newline>''"] h4 g4
  have "state_of (eval ''ls | wc &\<newline>'' ls_wc_bg ?w full_shell) =
      full_shell\<lparr>sigmask := sigmask full_shell \<union> {SIGCHLD, SIGINT, SIGTSTP},
                 trace := trace full_shell @ [Pipe True, Fork 99, Setpgid 99 99, Close 4, ?msg]\<rparr>"
    by blast
  then have c5: "state_of (eval ''ls | wc &\<newline>'' ls_wc_bg ?w full_shell) =
      full_shell\<lparr>sigmask := {SIGCHLD, SIGINT, SIGTSTP},
                 trace := [Pipe True, Fork 99, Setpgid 99 99, Close 4, ?msg]\<rparr>"
    by (simp only: s append_Nil Un_empty_left)
  from b have b': "list_all (\<lambda>j. pid j \<noteq> 0) (jobs full_shell)" by (simp add: list_all_iff)
  show ?thesis by (intro conjI) (rule a b' c1 c2 c3 c4 c5)+
qed

text \<open>
  Claim C7 as stated fails: with a full table the requested command is started all the
  same. \<^verbatim>\<open>fork\<close> has returned the child's pid 99 before \<^verbatim>\<open>addjob\<close> reports that the
  table is full.
\<close>

theorem full_table_child_is_forked:
  "addjob full_shell 99 FG ''sleep 5\<newline>'' =
     Inr (0, full_shell\<lparr>trace := [Printf ''Tried to create too many jobs\<newline>'']\<rparr>) \<and>
   trace (state_of (eval ''sleep 5\<newline>'' [''sleep'', ''5''] (quiet_world 99) full_shell)) =
     [Fork 99, Setpgid 99 99, Printf ''Tried to create too many jobs\<newline>'']"
  by code_simp

section \<open>Pipelines\<close>

text \<open>
  Claim C1 fails on the code: \<^verbatim>\<open>ls | wc &\<close> in a fresh shell, with no signal arriving,
  leaves two jobs, with the pids 200 and 201 of the two stages, and the second stage is
  made the leader of its own process group 201.
\<close>

theorem pipeline_two_jobs_two_groups:
  "map pid (filter (\<lambda>j. pid j \<noteq> 0)
      (jobs (state_of (eval ''ls | wc &\<newline>'' ls_wc_bg (quiet_world 200) (init_shell False {}))))) =
     [200, 201] \<and>
   Setpgid 201 201 \<in>
     set (trace (state_of (eval ''ls | wc &\<newline>'' ls_wc_bg (quiet_world 200) (init_shell False {}))))"
  by code_simp

section \<open>Two jobs in the foreground\<close>

text \<open>
  Claim C2 fails on the code. Every step of the run returns to the prompt. After the
  pipeline slot 1 holds pid 0 with state \<^verbatim>\<open>FG\<close>: the handler cleared the slot between
  two stores of \<^verbatim>\<open>addjob\<close>. When slot 0 has become free and \<^verbatim>\<open>sleep 5\<close> is put into
  it, the table has two entries in state \<^verbatim>\<open>FG\<close> while the shell waits for pid 203.
\<close>

theorem two_foreground_entries:
  "(case after_sleep_bg of Returned s \<Rightarrow> map (\<lambda>j. (pid j, state j)) (take 2 (jobs s)) | _ \<Rightarrow> []) =
     [(200, BG), (0, UNDEF)] \<and>
   (case after_pipeline of Returned s \<Rightarrow> map (\<lambda>j. (pid j, state j)) (take 2 (jobs s)) | _ \<Rightarrow> []) =
     [(200, BG), (0, FG)] \<and>
   (case after_reap of Returned s \<Rightarrow> map (\<lambda>j. (pid j, state j)) (take 2 (jobs s)) | _ \<Rightarrow> []) =
     [(0, UNDEF), (0, FG)] \<and>
   (case after_sleep_fg of Blocked s \<Rightarrow> map (\<lambda>j. (pid j, state j)) (take 2 (jobs s)) | _ \<Rightarrow> []) =
     [(203, FG), (0, FG)] \<and>
   fg_count (jobs (state_of after_sleep_fg)) = 2"
  by code_simp


end
